theory Spec2Isabelle
  imports Main "HOL-Library.AList" "HOL-Library.List_Lexorder" "HOL-Library.Char_ord"
begin

section \<open>Two-bucket replication (s3\_rep.py): the data model\<close>

text \<open>
  Keys and ISO timestamps are Python strings; both are compared with Python's string
  order, which is the lexicographic order of \<open>HOL-Library.List_Lexorder\<close> over the
  character order of \<open>HOL-Library.Char_ord\<close>. Python dictionaries are association lists
  read with \<open>map_of\<close> and written with \<open>AList.update\<close>.
\<close>

type_synonym key = string
type_synonym timestamp = string

datatype bucket_name = PRIMARY_BUCKET | SECONDARY_BUCKET

definition STATE_KEY :: key where
  "STATE_KEY = ''replication_state.json''"

definition LOG_KEY :: key where
  "LOG_KEY = ''replication.log.json''"

text \<open>One entry of \<open>state["files"]\<close>, and the state document itself.\<close>

record file_record =
  last_synced :: timestamp
  last_seen_in :: "string list"
  source :: string

record snapshot =
  files :: "(key \<times> file_record) list"
  last_updated :: timestamp

text \<open>
  The body of a stored object: user data, or the JSON text of a state document
  (\<open>json.dumps(state)\<close>) or of a progress log (\<open>json.dumps(list(completed_keys))\<close>).
\<close>

datatype content = Blob string | StateDoc snapshot | LogDoc "key list"

record s3object =
  LastModified :: timestamp
  Body :: content

text \<open>The calls made on the S3 client, and the lines the script prints.\<close>

datatype call =
    GetObject bucket_name key
  | PutObject bucket_name key content
  | DeleteObject bucket_name key
  | CopyObject bucket_name key bucket_name key
  | ListObjectsV2 bucket_name

datatype message =
    NoStateFileFound
  | CouldNotSaveState bucket_name string
  | CriticalCouldNotList bucket_name string
  | CouldNotLoadProgressLog string
  | CouldNotSaveProgressLog bucket_name string
  | CouldNotDeleteProgressLog bucket_name string
  | Resuming nat
  | Discovering
  | FoundTotal nat
  | DeletedFromSecondary key
  | NewInPrimary key
  | DeletedFromPrimary key
  | NewInSecondary key
  | ErrorProcessing key string
  | SyncActionsComplete
  | CleaningUp
  | Starting timestamp
  | FinishedSuccessfully timestamp

text \<open>
  The world the script runs in. \<open>faults\<close> is what the next S3 requests will meet: each
  request takes the head, \<open>Some code\<close> making it raise \<open>ClientError\<close> with that error
  code; when the list is used up every request reaches the store. \<open>clock\<close> gives the
  time read at each reading (\<open>now()\<close>, and the store's stamp on a write); \<open>tick\<close> counts
  the readings. \<open>calls\<close> is the log of requests with their outcome (\<open>None\<close> = success),
  oldest first; \<open>printed\<close> is the console output.
\<close>

record world =
  primary :: "(key \<times> s3object) list"
  secondary :: "(key \<times> s3object) list"
  faults :: "string option list"
  clock :: "nat \<Rightarrow> timestamp"
  tick :: nat
  calls :: "(call \<times> string option) list"
  printed :: "message list"

text \<open>
  An exception that is not a \<open>ClientError\<close>, which no handler of the script catches:
  \<open>json.loads\<close> failing on a body, or \<open>.get\<close> called on a list.
\<close>

datatype exn = DecodeError | AttributeError

subsection \<open>The S3 client\<close>

definition bucket :: "world \<Rightarrow> bucket_name \<Rightarrow> (key \<times> s3object) list" where
  "bucket w b = (case b of PRIMARY_BUCKET \<Rightarrow> primary w | SECONDARY_BUCKET \<Rightarrow> secondary w)"

definition set_bucket :: "bucket_name \<Rightarrow> (key \<times> s3object) list \<Rightarrow> world \<Rightarrow> world" where
  "set_bucket b objs w =
     (case b of PRIMARY_BUCKET \<Rightarrow> w\<lparr>primary := objs\<rparr>
              | SECONDARY_BUCKET \<Rightarrow> w\<lparr>secondary := objs\<rparr>)"

definition print_msg :: "message \<Rightarrow> world \<Rightarrow> world" where
  "print_msg m w = w\<lparr>printed := printed w @ [m]\<rparr>"

definition now :: "world \<Rightarrow> timestamp \<times> world" where
  "now w = (clock w (tick w), w\<lparr>tick := Suc (tick w)\<rparr>)"

definition take_fault :: "world \<Rightarrow> string option \<times> world" where
  "take_fault w =
     (case faults w of [] \<Rightarrow> (None, w) | f # fs \<Rightarrow> (f, w\<lparr>faults := fs\<rparr>))"

definition record_call :: "call \<Rightarrow> string option \<Rightarrow> world \<Rightarrow> world" where
  "record_call c r w = w\<lparr>calls := calls w @ [(c, r)]\<rparr>"

text \<open>\<open>s3.get_object\<close>: a missing key is a \<open>ClientError\<close> with code \<open>NoSuchKey\<close>.\<close>

definition get_object :: "bucket_name \<Rightarrow> key \<Rightarrow> world \<Rightarrow> (string + s3object) \<times> world" where
  "get_object b k w =
     (case take_fault w of
        (Some code, w') \<Rightarrow> (Inl code, record_call (GetObject b k) (Some code) w')
      | (None, w') \<Rightarrow>
          (case map_of (bucket w' b) k of
             None \<Rightarrow> (Inl ''NoSuchKey'', record_call (GetObject b k) (Some ''NoSuchKey'') w')
           | Some obj \<Rightarrow> (Inr obj, record_call (GetObject b k) None w')))"

text \<open>\<open>s3.put_object\<close>: the store stamps the object with the time of the write.\<close>

definition put_object :: "bucket_name \<Rightarrow> key \<Rightarrow> content \<Rightarrow> world \<Rightarrow> string option \<times> world" where
  "put_object b k body w =
     (case take_fault w of
        (Some code, w') \<Rightarrow> (Some code, record_call (PutObject b k body) (Some code) w')
      | (None, w') \<Rightarrow>
          (let (t, w'') = now w'
           in (None, record_call (PutObject b k body) None
                 (set_bucket b
                    (AList.update k \<lparr>LastModified = t, Body = body\<rparr> (bucket w'' b)) w''))))"

text \<open>\<open>s3.delete_object\<close>: deleting a key that is not there succeeds.\<close>

definition delete_object :: "bucket_name \<Rightarrow> key \<Rightarrow> world \<Rightarrow> string option \<times> world" where
  "delete_object b k w =
     (case take_fault w of
        (Some code, w') \<Rightarrow> (Some code, record_call (DeleteObject b k) (Some code) w')
      | (None, w') \<Rightarrow>
          (None, record_call (DeleteObject b k) None
             (set_bucket b (AList.delete k (bucket w' b)) w')))"

text \<open>
  \<open>s3.copy({"Bucket": src, "Key": k}, dst, k')\<close>: a missing source is a \<open>ClientError\<close>
  (code 404); the copy is stamped with the time of the write.
\<close>

definition copy :: "bucket_name \<Rightarrow> key \<Rightarrow> bucket_name \<Rightarrow> key \<Rightarrow> world \<Rightarrow> string option \<times> world" where
  "copy src k dst k' w =
     (case take_fault w of
        (Some code, w') \<Rightarrow> (Some code, record_call (CopyObject src k dst k') (Some code) w')
      | (None, w') \<Rightarrow>
          (case map_of (bucket w' src) k of
             None \<Rightarrow> (Some ''404'', record_call (CopyObject src k dst k') (Some ''404'') w')
           | Some obj \<Rightarrow>
               (let (t, w'') = now w'
                in (None, record_call (CopyObject src k dst k') None
                      (set_bucket dst
                         (AList.update k' \<lparr>LastModified = t, Body = Body obj\<rparr> (bucket w'' dst))
                         w'')))))"

text \<open>
  The paginator of \<open>list_objects_v2\<close>: pages of at most 1000 objects, at least one page
  (an empty bucket gives one page without \<open>Contents\<close>). Each page is one request.
\<close>

function pages_of :: "'a list \<Rightarrow> 'a list list" where
  "pages_of xs =
     (if length xs \<le> 1000 then [xs] else take 1000 xs # pages_of (drop 1000 xs))"
  by pat_completeness auto
termination
  by (relation "measure length") auto

declare pages_of.simps [simp del]

subsection \<open>The functions of the script\<close>

text \<open>
  \<open>json.loads\<close> of a body: a state document parses to a dictionary, a progress log to
  a list; user data is taken not to parse as JSON, and \<open>None\<close> is the exception raised
  then. A value is tested for truth as Python does: \<open>None\<close> and the empty list are false
  (a state dictionary has its two members and is true).
\<close>

datatype json = JObject snapshot | JArray "key list"

definition json_loads :: "content \<Rightarrow> json option" where
  "json_loads c =
     (case c of StateDoc s \<Rightarrow> Some (JObject s) | LogDoc ks \<Rightarrow> Some (JArray ks) | Blob d \<Rightarrow> None)"

definition truth :: "json option \<Rightarrow> bool" where
  "truth v = (case v of None \<Rightarrow> False | Some (JObject s) \<Rightarrow> True | Some (JArray ks) \<Rightarrow> ks \<noteq> [])"

text \<open>
  \<open>set(json.loads(body))\<close>, as \<open>load_progress_log\<close> takes it: the members of a list;
  of a dictionary, its two member names.
\<close>

definition decode_log :: "content \<Rightarrow> key list option" where
  "decode_log c =
     (case c of
        LogDoc ks \<Rightarrow> Some ks
      | StateDoc s \<Rightarrow> Some [''files'', ''last_updated'']
      | Blob d \<Rightarrow> None)"

text \<open>
  \<open>load_state\<close>: the loop over both buckets, keeping the newest candidate. While
  \<open>state\<close> is false the candidate is taken as it is; otherwise \<open>last_updated\<close> is read
  from both with \<open>.get\<close>, which a list does not have. What the loop leaves is returned
  when it is true, a list included; otherwise the fresh state is.
\<close>

fun load_state_loop ::
  "bucket_name list \<Rightarrow> json option \<Rightarrow> world \<Rightarrow> (exn + json option) \<times> world" where
  "load_state_loop [] state w = (Inr state, w)"
| "load_state_loop (b # bs) state w =
     (case get_object b STATE_KEY w of
        (Inl code, w') \<Rightarrow> load_state_loop bs state w'
      | (Inr obj, w') \<Rightarrow>
          (case json_loads (Body obj) of
             None \<Rightarrow> (Inl DecodeError, w')
           | Some candidate \<Rightarrow>
               if \<not> truth state then load_state_loop bs (Some candidate) w'
               else
                 (case (candidate, state) of
                    (JObject c, Some (JObject s)) \<Rightarrow>
                      load_state_loop bs
                        (if last_updated c > last_updated s then Some candidate else state) w'
                  | _ \<Rightarrow> (Inl AttributeError, w'))))"

definition load_state :: "world \<Rightarrow> (exn + json) \<times> world" where
  "load_state w =
     (case load_state_loop [PRIMARY_BUCKET, SECONDARY_BUCKET] None w of
        (Inl e, w') \<Rightarrow> (Inl e, w')
      | (Inr state, w') \<Rightarrow>
          if truth state then (Inr (the state), w')
          else
            (let (t, w'') = now (print_msg NoStateFileFound w')
             in (Inr (JObject \<lparr>files = [], last_updated = t\<rparr>), w'')))"

text \<open>\<open>save_state\<close>: one put per bucket, a \<open>ClientError\<close> printed and passed over.\<close>

fun save_state_loop :: "bucket_name list \<Rightarrow> content \<Rightarrow> world \<Rightarrow> world" where
  "save_state_loop [] encoded w = w"
| "save_state_loop (b # bs) encoded w =
     (case put_object b STATE_KEY encoded w of
        (None, w') \<Rightarrow> save_state_loop bs encoded w'
      | (Some e, w') \<Rightarrow> save_state_loop bs encoded (print_msg (CouldNotSaveState b e) w'))"

definition save_state :: "snapshot \<Rightarrow> world \<Rightarrow> world" where
  "save_state state w =
     (let (t, w') = now w;
          encoded = StateDoc (state\<lparr>last_updated := t\<rparr>)
      in save_state_loop [PRIMARY_BUCKET, SECONDARY_BUCKET] encoded w')"

text \<open>
  \<open>list_bucket_objects\<close>: the keys of a page go into \<open>result\<close> unless they are the state
  or the log key; a \<open>ClientError\<close> on a page is printed and \<open>result\<close> is returned as it
  stands.
\<close>

fun add_page :: "(key \<times> s3object) list \<Rightarrow> (key \<times> timestamp) list \<Rightarrow> (key \<times> timestamp) list" where
  "add_page [] result = result"
| "add_page ((k, obj) # objs) result =
     add_page objs
       (if k \<notin> set [STATE_KEY, LOG_KEY] then AList.update k (LastModified obj) result
        else result)"

fun list_pages ::
  "bucket_name \<Rightarrow> (key \<times> s3object) list list \<Rightarrow> (key \<times> timestamp) list \<Rightarrow> world \<Rightarrow>
   (key \<times> timestamp) list \<times> world" where
  "list_pages b [] result w = (result, w)"
| "list_pages b (page # pages) result w =
     (case take_fault w of
        (Some e, w') \<Rightarrow>
          (result, print_msg (CriticalCouldNotList b e)
                     (record_call (ListObjectsV2 b) (Some e) w'))
      | (None, w') \<Rightarrow>
          list_pages b pages (add_page page result) (record_call (ListObjectsV2 b) None w'))"

definition list_bucket_objects :: "bucket_name \<Rightarrow> world \<Rightarrow> (key \<times> timestamp) list \<times> world" where
  "list_bucket_objects b w = list_pages b (pages_of (bucket w b)) [] w"

text \<open>
  \<open>rebuild_files_state\<close>. The script walks a Python set, whose order is not fixed; the
  model walks it in sorted order. Each entry reads the clock once.
\<close>

definition get_default :: "(key \<times> timestamp) list \<Rightarrow> key \<Rightarrow> timestamp \<Rightarrow> timestamp" where
  "get_default d k dflt = (case map_of d k of None \<Rightarrow> dflt | Some v \<Rightarrow> v)"

definition rebuild_entry ::
  "(key \<times> timestamp) list \<Rightarrow> (key \<times> timestamp) list \<Rightarrow> key \<Rightarrow> world \<Rightarrow> file_record \<times> world" where
  "rebuild_entry primary_files secondary_files k w =
     (let locations =
            (if k \<in> fst ` set primary_files then [''primary''] else []) @
            (if k \<in> fst ` set secondary_files then [''secondary''] else []);
          p_time = get_default primary_files k [];
          s_time = get_default secondary_files k [];
          src = (if p_time > s_time then ''primary''
                 else if s_time > p_time then ''secondary''
                 else ''equal'');
          (t, w') = now w
      in (\<lparr>last_synced = t, last_seen_in = locations, source = src\<rparr>, w'))"

fun rebuild_loop ::
  "(key \<times> timestamp) list \<Rightarrow> (key \<times> timestamp) list \<Rightarrow> key list \<Rightarrow>
   (key \<times> file_record) list \<Rightarrow> world \<Rightarrow> (key \<times> file_record) list \<times> world" where
  "rebuild_loop primary_files secondary_files [] fs w = (fs, w)"
| "rebuild_loop primary_files secondary_files (k # ks) fs w =
     (let (r, w') = rebuild_entry primary_files secondary_files k w
      in rebuild_loop primary_files secondary_files ks (AList.update k r fs) w')"

definition rebuild_files_state ::
  "(key \<times> timestamp) list \<Rightarrow> (key \<times> timestamp) list \<Rightarrow> world \<Rightarrow>
   (key \<times> file_record) list \<times> world" where
  "rebuild_files_state primary_files secondary_files w =
     (let all_keys = fst ` set primary_files \<union> fst ` set secondary_files
      in rebuild_loop primary_files secondary_files (sorted_list_of_set all_keys) [] w)"

text \<open>\<open>load_progress_log\<close>: the primary bucket only; every \<open>ClientError\<close> gives \<open>set()\<close>.\<close>

definition load_progress_log :: "world \<Rightarrow> (exn + key set) \<times> world" where
  "load_progress_log w =
     (case get_object PRIMARY_BUCKET LOG_KEY w of
        (Inr obj, w') \<Rightarrow>
          (case decode_log (Body obj) of
             None \<Rightarrow> (Inl DecodeError, w')
           | Some ks \<Rightarrow> (Inr (set ks), w'))
      | (Inl code, w') \<Rightarrow>
          if code = ''NoSuchKey'' then (Inr {}, w')
          else (Inr {}, print_msg (CouldNotLoadProgressLog code) w'))"

text \<open>\<open>save_progress_log\<close> and \<open>delete_progress_log\<close>: both buckets, errors printed.\<close>

fun save_log_loop :: "bucket_name list \<Rightarrow> content \<Rightarrow> world \<Rightarrow> world" where
  "save_log_loop [] encoded w = w"
| "save_log_loop (b # bs) encoded w =
     (case put_object b LOG_KEY encoded w of
        (None, w') \<Rightarrow> save_log_loop bs encoded w'
      | (Some e, w') \<Rightarrow>
          save_log_loop bs encoded (print_msg (CouldNotSaveProgressLog b e) w'))"

definition save_progress_log :: "key set \<Rightarrow> world \<Rightarrow> world" where
  "save_progress_log completed_keys w =
     save_log_loop [PRIMARY_BUCKET, SECONDARY_BUCKET]
       (LogDoc (sorted_list_of_set completed_keys)) w"

fun delete_log_loop :: "bucket_name list \<Rightarrow> world \<Rightarrow> world" where
  "delete_log_loop [] w = w"
| "delete_log_loop (b # bs) w =
     (case delete_object b LOG_KEY w of
        (None, w') \<Rightarrow> delete_log_loop bs w'
      | (Some e, w') \<Rightarrow> delete_log_loop bs (print_msg (CouldNotDeleteProgressLog b e) w'))"

definition delete_progress_log :: "world \<Rightarrow> world" where
  "delete_progress_log w = delete_log_loop [PRIMARY_BUCKET, SECONDARY_BUCKET] w"

subsection \<open>\<open>replicate_resilient\<close>\<close>

text \<open>
  The branch the loop body takes for a key: \<open>p_time\<close> and \<open>s_time\<close> are tested for
  truth, so \<open>None\<close> and the empty string both count as missing.
\<close>

datatype action =
    DELETE_FROM_PRIMARY
  | COPY_TO_SECONDARY
  | DELETE_FROM_SECONDARY
  | COPY_TO_PRIMARY
  | NO_ACTION

definition truthy :: "timestamp option \<Rightarrow> bool" where
  "truthy t = (case t of None \<Rightarrow> False | Some s \<Rightarrow> s \<noteq> [])"

definition seen_in :: "snapshot \<Rightarrow> key \<Rightarrow> string \<Rightarrow> bool" where
  "seen_in state k loc =
     (case map_of (files state) k of
        None \<Rightarrow> False
      | Some r \<Rightarrow> loc \<in> set (last_seen_in r))"

definition choose_action ::
  "snapshot \<Rightarrow> (key \<times> timestamp) list \<Rightarrow> (key \<times> timestamp) list \<Rightarrow> key \<Rightarrow> action" where
  "choose_action state primary_files secondary_files k =
     (let p_time = map_of primary_files k;
          s_time = map_of secondary_files k
      in if truthy p_time \<and> \<not> truthy s_time then
           (if seen_in state k ''secondary'' then DELETE_FROM_PRIMARY else COPY_TO_SECONDARY)
         else if truthy s_time \<and> \<not> truthy p_time then
           (if seen_in state k ''primary'' then DELETE_FROM_SECONDARY else COPY_TO_PRIMARY)
         else NO_ACTION)"

text \<open>The message and the S3 request of each branch.\<close>

definition perform :: "action \<Rightarrow> key \<Rightarrow> world \<Rightarrow> string option \<times> world" where
  "perform a k w =
     (case a of
        DELETE_FROM_PRIMARY \<Rightarrow>
          delete_object PRIMARY_BUCKET k (print_msg (DeletedFromSecondary k) w)
      | COPY_TO_SECONDARY \<Rightarrow>
          copy PRIMARY_BUCKET k SECONDARY_BUCKET k (print_msg (NewInPrimary k) w)
      | DELETE_FROM_SECONDARY \<Rightarrow>
          delete_object SECONDARY_BUCKET k (print_msg (DeletedFromPrimary k) w)
      | COPY_TO_PRIMARY \<Rightarrow>
          copy SECONDARY_BUCKET k PRIMARY_BUCKET k (print_msg (NewInSecondary k) w)
      | NO_ACTION \<Rightarrow> (None, w))"

text \<open>
  One turn of the loop over the sorted keys. \<open>Inl e\<close> is the \<open>ClientError\<close> handler: the
  error is printed and \<open>replicate_resilient\<close> returns.
\<close>

definition process_key ::
  "snapshot \<Rightarrow> (key \<times> timestamp) list \<Rightarrow> (key \<times> timestamp) list \<Rightarrow> key \<Rightarrow> key set \<Rightarrow>
   world \<Rightarrow> (string + key set) \<times> world" where
  "process_key state primary_files secondary_files k completed_this_run w =
     (if k \<in> completed_this_run then (Inr completed_this_run, w)
      else
        (let a = choose_action state primary_files secondary_files k
         in case perform a k w of
              (Some e, w') \<Rightarrow> (Inl e, print_msg (ErrorProcessing k e) w')
            | (None, w') \<Rightarrow>
                if a \<noteq> NO_ACTION then
                  (Inr (insert k completed_this_run),
                   save_progress_log (insert k completed_this_run) w')
                else (Inr completed_this_run, w')))"

fun sync_loop ::
  "snapshot \<Rightarrow> (key \<times> timestamp) list \<Rightarrow> (key \<times> timestamp) list \<Rightarrow> key list \<Rightarrow> key set \<Rightarrow>
   world \<Rightarrow> (string + key set) \<times> world" where
  "sync_loop state primary_files secondary_files [] completed_this_run w =
     (Inr completed_this_run, w)"
| "sync_loop state primary_files secondary_files (k # ks) completed_this_run w =
     (case process_key state primary_files secondary_files k completed_this_run w of
        (Inl e, w') \<Rightarrow> (Inl e, w')
      | (Inr completed', w') \<Rightarrow> sync_loop state primary_files secondary_files ks completed' w')"

text \<open>The keys the loop walks: \<open>sorted(list(all_keys))\<close>.\<close>

definition all_keys ::
  "snapshot \<Rightarrow> (key \<times> timestamp) list \<Rightarrow> (key \<times> timestamp) list \<Rightarrow> key list" where
  "all_keys state primary_files secondary_files =
     sorted_list_of_set
       (fst ` set primary_files \<union> fst ` set secondary_files \<union> fst ` set (files state))"

text \<open>What follows the loop when no action failed.\<close>

definition finish :: "snapshot \<Rightarrow> world \<Rightarrow> world" where
  "finish state w =
     (let w1 = print_msg SyncActionsComplete w;
          (final_primary_files, w2) = list_bucket_objects PRIMARY_BUCKET w1;
          (final_secondary_files, w3) = list_bucket_objects SECONDARY_BUCKET w2;
          (fs, w4) = rebuild_files_state final_primary_files final_secondary_files w3;
          w5 = save_state (state\<lparr>files := fs\<rparr>) w4;
          w6 = print_msg CleaningUp w5
      in delete_progress_log w6)"

text \<open>
  The start of the run once the state and the log are loaded: both buckets are listed
  and the keys to walk are collected.
\<close>

definition discover ::
  "snapshot \<Rightarrow> key set \<Rightarrow> world \<Rightarrow>
   ((key \<times> timestamp) list \<times> (key \<times> timestamp) list \<times> key list) \<times> world" where
  "discover state completed_in_prior_run w =
     (let w1 = (if completed_in_prior_run \<noteq> {}
                then print_msg (Resuming (card completed_in_prior_run)) w else w);
          w2 = print_msg Discovering w1;
          (primary_files, w3) = list_bucket_objects PRIMARY_BUCKET w2;
          (secondary_files, w4) = list_bucket_objects SECONDARY_BUCKET w3;
          ks = all_keys state primary_files secondary_files;
          w5 = print_msg (FoundTotal (length ks)) w4
      in ((primary_files, secondary_files, ks), w5))"

text \<open>
  The run from the loaded state and log on. The result says how the function ended:
  \<open>Inl e\<close> is the early \<open>return\<close> of the handler, \<open>Inr ()\<close> the end of the function.
\<close>

definition run_from :: "snapshot \<Rightarrow> key set \<Rightarrow> world \<Rightarrow> (string + unit) \<times> world" where
  "run_from state completed_in_prior_run w =
     (case discover state completed_in_prior_run w of
        ((primary_files, secondary_files, ks), w5) \<Rightarrow>
          (case sync_loop state primary_files secondary_files ks completed_in_prior_run w5 of
             (Inl e, w6) \<Rightarrow> (Inl e, w6)
           | (Inr completed, w6) \<Rightarrow> (Inr (), finish state w6)))"

text \<open>
  The lines between the loading of the log and the collection of the keys: the message
  of a resumed run, and the two listings.
\<close>

definition list_both ::
  "key set \<Rightarrow> world \<Rightarrow> ((key \<times> timestamp) list \<times> (key \<times> timestamp) list) \<times> world" where
  "list_both completed_in_prior_run w =
     (let w1 = (if completed_in_prior_run \<noteq> {}
                then print_msg (Resuming (card completed_in_prior_run)) w else w);
          w2 = print_msg Discovering w1;
          (primary_files, w3) = list_bucket_objects PRIMARY_BUCKET w2;
          (secondary_files, w4) = list_bucket_objects SECONDARY_BUCKET w3
      in ((primary_files, secondary_files), w4))"

text \<open>
  \<open>replicate_resilient\<close>: \<open>Inl e\<close> is an exception leaving the function, \<open>Inr r\<close> a
  return (\<open>r\<close> as in \<open>run_from\<close>; the caller cannot tell the two returns apart). When
  \<open>load_state\<close> returned a list, the exception comes where the keys are collected, at
  \<open>state.get("files", {})\<close>, after both listings.
\<close>

definition replicate_resilient :: "world \<Rightarrow> (exn + (string + unit)) \<times> world" where
  "replicate_resilient w =
     (case load_state w of
        (Inl e, w1) \<Rightarrow> (Inl e, w1)
      | (Inr loaded, w1) \<Rightarrow>
          (case load_progress_log w1 of
             (Inl e, w2) \<Rightarrow> (Inl e, w2)
           | (Inr completed_in_prior_run, w2) \<Rightarrow>
               (case loaded of
                  JArray xs \<Rightarrow> (Inl AttributeError, snd (list_both completed_in_prior_run w2))
                | JObject state \<Rightarrow>
                    (case run_from state completed_in_prior_run w2 of
                       (r, w3) \<Rightarrow> (Inr r, w3)))))"

text \<open>
  The script's entry point: the process exit status is 1 when an exception leaves
  \<open>replicate_resilient\<close> and 0 when it returns, after the closing line is printed.
\<close>

definition main :: "world \<Rightarrow> nat \<times> world" where
  "main w =
     (let (t, w1) = now w;
          w2 = print_msg (Starting t) w1
      in case replicate_resilient w2 of
           (Inl e, w3) \<Rightarrow> (1, w3)
         | (Inr r, w3) \<Rightarrow>
             (let (t', w4) = now w3
              in (0, print_msg (FinishedSuccessfully t') w4)))"

subsection \<open>Vocabulary of the statements, and sample worlds\<close>

text \<open>What the next S3 request will meet.\<close>

definition next_fault :: "world \<Rightarrow> string option" where
  "next_fault w = (case faults w of [] \<Rightarrow> None | f # fs \<Rightarrow> f)"

text \<open>
  A state that has seen \<open>a\<close> in both buckets, and a world whose primary bucket holds
  \<open>a\<close> and whose secondary bucket is empty, with no fault ahead.
\<close>

definition ex_state :: snapshot where
  "ex_state =
     \<lparr>files = [(''a'', \<lparr>last_synced = ''t0'', last_seen_in = [''primary'', ''secondary''],
                          source = ''equal''\<rparr>)],
      last_updated = ''t0''\<rparr>"

definition ex_world :: world where
  "ex_world =
     \<lparr>primary = [(''a'', \<lparr>LastModified = ''t1'', Body = Blob ''x''\<rparr>)], secondary = [],
      faults = [], clock = (\<lambda>n. ''t2''), tick = 0, calls = [], printed = []\<rparr>"

text \<open>
  A world whose only progress log is in the secondary bucket; and a world in which both
  buckets hold \<open>a\<close>, the primary bucket holds the state \<open>ex_state\<close>, and the fifth
  request (the listing of the secondary bucket, in a run) fails.
\<close>

definition ex_world_log_secondary :: world where
  "ex_world_log_secondary =
     \<lparr>primary = [],
      secondary = [(LOG_KEY, \<lparr>LastModified = ''t1'', Body = LogDoc [''a'']\<rparr>)],
      faults = [], clock = (\<lambda>n. ''t2''), tick = 0, calls = [], printed = []\<rparr>"

text \<open>The sample world with a progress log in the primary bucket that was cut short.\<close>

definition ex_world_bad_log :: world where
  "ex_world_bad_log =
     ex_world\<lparr>primary := primary ex_world @
       [(LOG_KEY, \<lparr>LastModified = ''t1'', Body = Blob ''[''\<rparr>)]\<rparr>"

definition ex_world_both :: world where
  "ex_world_both =
     \<lparr>primary = [(''a'', \<lparr>LastModified = ''t1'', Body = Blob ''x''\<rparr>),
                 (STATE_KEY, \<lparr>LastModified = ''t1'', Body = StateDoc ex_state\<rparr>)],
      secondary = [(''a'', \<lparr>LastModified = ''t1'', Body = Blob ''x''\<rparr>)],
      faults = [None, None, None, None, Some ''AccessDenied''],
      clock = (\<lambda>n. ''t2''), tick = 0, calls = [], printed = []\<rparr>"

text \<open>
  The requests made between two worlds of a run; the request of each branch of the loop
  body; and "every request made from \<open>w\<close> to \<open>w'\<close> satisfies \<open>P\<close>".
\<close>

definition new_calls :: "world \<Rightarrow> world \<Rightarrow> (call \<times> string option) list" where
  "new_calls w w' = drop (length (calls w)) (calls w')"

definition request :: "action \<Rightarrow> key \<Rightarrow> call option" where
  "request a k =
     (case a of
        DELETE_FROM_PRIMARY \<Rightarrow> Some (DeleteObject PRIMARY_BUCKET k)
      | COPY_TO_SECONDARY \<Rightarrow> Some (CopyObject PRIMARY_BUCKET k SECONDARY_BUCKET k)
      | DELETE_FROM_SECONDARY \<Rightarrow> Some (DeleteObject SECONDARY_BUCKET k)
      | COPY_TO_PRIMARY \<Rightarrow> Some (CopyObject SECONDARY_BUCKET k PRIMARY_BUCKET k)
      | NO_ACTION \<Rightarrow> None)"

definition calls_extend :: "(call \<Rightarrow> bool) \<Rightarrow> world \<Rightarrow> world \<Rightarrow> bool" where
  "calls_extend P w w' \<longleftrightarrow> (\<exists>cs. calls w' = calls w @ cs \<and> list_all (\<lambda>c. P (fst c)) cs)"

text \<open>A request that deletes the progress log.\<close>

definition is_log_delete :: "call \<Rightarrow> bool" where
  "is_log_delete c = (case c of DeleteObject b k \<Rightarrow> k = LOG_KEY | _ \<Rightarrow> False)"

text \<open>
  The world a run leaves behind when the process is killed after \<open>n\<close> turns of the
  loop (in particular, right after the turn that checkpointed a key).
\<close>

definition interrupted :: "nat \<Rightarrow> world \<Rightarrow> world" where
  "interrupted n w =
     (case load_state w of
        (Inl e, w1) \<Rightarrow> w1
      | (Inr loaded, w1) \<Rightarrow>
          (case load_progress_log w1 of
             (Inl e, w2) \<Rightarrow> w2
           | (Inr completed_in_prior_run, w2) \<Rightarrow>
               (case loaded of
                  JArray xs \<Rightarrow> snd (list_both completed_in_prior_run w2)
                | JObject state \<Rightarrow>
                    (case discover state completed_in_prior_run w2 of
                       ((primary_files, secondary_files, ks), w5) \<Rightarrow>
                         snd (sync_loop state primary_files secondary_files (take n ks)
                                completed_in_prior_run w5)))))"

text \<open>
  The body stored under a key; what a state records of where each key was seen; the key
  a copy or a delete of user data acts on; and "the turn for \<open>k\<close> takes an action".
\<close>

definition body_at :: "world \<Rightarrow> bucket_name \<Rightarrow> key \<Rightarrow> content option" where
  "body_at w b k = map_option Body (map_of (bucket w b) k)"

definition seen_map :: "snapshot \<Rightarrow> (key \<times> string list) list" where
  "seen_map s = map (\<lambda>kr. (fst kr, last_seen_in (snd kr))) (files s)"

definition action_key :: "call \<Rightarrow> key option" where
  "action_key c =
     (case c of
        DeleteObject b k \<Rightarrow> if k = LOG_KEY then None else Some k
      | CopyObject src k dst k' \<Rightarrow> Some k
      | _ \<Rightarrow> None)"

definition acts ::
  "snapshot \<Rightarrow> (key \<times> timestamp) list \<Rightarrow> (key \<times> timestamp) list \<Rightarrow> key set \<Rightarrow> key \<Rightarrow> bool" where
  "acts state pf sf completed k \<longleftrightarrow>
     k \<notin> completed \<and> choose_action state pf sf k \<noteq> NO_ACTION"

text \<open>
  What a state records of each key's source; the source that the time stamps stored in
  a world give a key (the comparison of \<open>rebuild_files_state\<close>, a missing object
  counting as the empty string); and "every time stamp stored in \<open>w\<close> is earlier than
  every time the clock will give from now on".
\<close>

definition source_map :: "snapshot \<Rightarrow> (key \<times> string) list" where
  "source_map s = map (\<lambda>kr. (fst kr, source (snd kr))) (files s)"

definition stamp_at :: "world \<Rightarrow> bucket_name \<Rightarrow> key \<Rightarrow> timestamp" where
  "stamp_at w b k = (case map_of (bucket w b) k of None \<Rightarrow> [] | Some obj \<Rightarrow> LastModified obj)"

definition source_at :: "world \<Rightarrow> key \<Rightarrow> string" where
  "source_at w k =
     (if stamp_at w PRIMARY_BUCKET k > stamp_at w SECONDARY_BUCKET k then ''primary''
      else if stamp_at w SECONDARY_BUCKET k > stamp_at w PRIMARY_BUCKET k then ''secondary''
      else ''equal'')"

definition clock_ahead :: "world \<Rightarrow> bool" where
  "clock_ahead w \<longleftrightarrow>
     (\<forall>b k obj n. map_of (bucket w b) k = Some obj \<and> tick w \<le> n \<longrightarrow>
        LastModified obj < clock w n)"

text \<open>
  What the action \<open>a\<close> on a key, once it has succeeded, makes of the objects stored
  under that key in the two buckets: a copy is stamped with a time read at tick \<open>t\<close>
  or later.
\<close>

definition acted_on ::
  "action \<Rightarrow> (bucket_name \<Rightarrow> s3object option) \<Rightarrow> (bucket_name \<Rightarrow> s3object option) \<Rightarrow>
   (nat \<Rightarrow> timestamp) \<Rightarrow> nat \<Rightarrow> bool" where
  "acted_on a before after clk t \<longleftrightarrow>
     (case a of
        DELETE_FROM_PRIMARY \<Rightarrow>
          after PRIMARY_BUCKET = None \<and> after SECONDARY_BUCKET = before SECONDARY_BUCKET
      | DELETE_FROM_SECONDARY \<Rightarrow>
          after SECONDARY_BUCKET = None \<and> after PRIMARY_BUCKET = before PRIMARY_BUCKET
      | COPY_TO_SECONDARY \<Rightarrow>
          after PRIMARY_BUCKET = before PRIMARY_BUCKET \<and>
          (\<exists>obj n. before PRIMARY_BUCKET = Some obj \<and> t \<le> n \<and>
             after SECONDARY_BUCKET = Some \<lparr>LastModified = clk n, Body = Body obj\<rparr>)
      | COPY_TO_PRIMARY \<Rightarrow>
          after SECONDARY_BUCKET = before SECONDARY_BUCKET \<and>
          (\<exists>obj n. before SECONDARY_BUCKET = Some obj \<and> t \<le> n \<and>
             after PRIMARY_BUCKET = Some \<lparr>LastModified = clk n, Body = Body obj\<rparr>)
      | NO_ACTION \<Rightarrow> after = before)"

text \<open>
  The copies and deletes of user data requested between two worlds of a run, in the
  order they were made; and the copies and deletes a walk of the keys calls for: the
  request of the branch taken for each key of \<open>sorted(list(all_keys))\<close> that is not in
  the completed set, in that order (a key whose branch is none contributes nothing).
  \<open>run_plan\<close> is that list for the listings a run from \<open>w\<close> obtains.
\<close>

definition actions_of :: "world \<Rightarrow> world \<Rightarrow> call list" where
  "actions_of w w' = filter (\<lambda>c. action_key c \<noteq> None) (map fst (new_calls w w'))"

definition planned ::
  "snapshot \<Rightarrow> (key \<times> timestamp) list \<Rightarrow> (key \<times> timestamp) list \<Rightarrow> key set \<Rightarrow> call list" where
  "planned state pf sf completed =
     List.map_filter (\<lambda>k. request (choose_action state pf sf k) k)
       (filter (\<lambda>k. k \<notin> completed) (all_keys state pf sf))"

definition run_plan :: "snapshot \<Rightarrow> key set \<Rightarrow> world \<Rightarrow> call list" where
  "run_plan state completed w =
     (case discover state completed w of
        ((pf, sf, ks), w5) \<Rightarrow> planned state pf sf completed)"

text \<open>
  The sample world with a second object, \<open>b\<close>, in the primary bucket, and a clock that
  advances at every reading (\<open>t9\<close>, \<open>t99\<close>, \<open>t999\<close>, and so on).
\<close>

definition ex_world_two :: world where
  "ex_world_two =
     ex_world\<lparr>primary := [(''a'', \<lparr>LastModified = ''t1'', Body = Blob ''x''\<rparr>),
                           (''b'', \<lparr>LastModified = ''t1'', Body = Blob ''y''\<rparr>)],
               clock := (\<lambda>n. CHR ''t'' # replicate (Suc n) CHR ''9'')\<rparr>"



text \<open>
  The state document stored in a bucket. Two more sample worlds: one in which \<open>b\<close>
  carries a modification time that the clock only reaches at its sixth reading; and one
  in which the eighteenth request fails (a run makes seventeen; a run interrupted after
  one turn of its loop has made eight, and the run that follows it fourteen).
\<close>

definition stored_state :: "world \<Rightarrow> bucket_name \<Rightarrow> snapshot option" where
  "stored_state w b =
     (case body_at w b STATE_KEY of Some (StateDoc s) \<Rightarrow> Some s | _ \<Rightarrow> None)"

definition ex_world_late :: world where
  "ex_world_late =
     ex_world_two\<lparr>primary := [(''a'', \<lparr>LastModified = ''t1'', Body = Blob ''x''\<rparr>),
                               (''b'', \<lparr>LastModified = ''t999999'', Body = Blob ''y''\<rparr>)]\<rparr>"

definition ex_world_late_fault :: world where
  "ex_world_late_fault = ex_world_two\<lparr>faults := replicate 17 None @ [Some ''SlowDown'']\<rparr>"

section \<open>Properties\<close>

subsection \<open>The S3 client\<close>

lemma take_fault_eq: "take_fault w = (next_fault w, w\<lparr>faults := tl (faults w)\<rparr>)"
  by (cases "faults w") (simp_all add: take_fault_def next_fault_def)

lemma bucket_simps:
  "bucket w PRIMARY_BUCKET = primary w" "bucket w SECONDARY_BUCKET = secondary w"
  by (simp_all add: bucket_def)

lemma bucket_updates [simp]:
  "bucket (w\<lparr>faults := fs\<rparr>) b = bucket w b" "bucket (w\<lparr>tick := n\<rparr>) b = bucket w b"
  "bucket (w\<lparr>calls := cs\<rparr>) b = bucket w b" "bucket (w\<lparr>printed := ms\<rparr>) b = bucket w b"
  by (cases b; simp add: bucket_def)+

lemma next_fault_updates [simp]:
  "next_fault (w\<lparr>tick := n\<rparr>) = next_fault w" "next_fault (w\<lparr>calls := cs\<rparr>) = next_fault w"
  "next_fault (w\<lparr>printed := ms\<rparr>) = next_fault w"
  "next_fault (w\<lparr>primary := p\<rparr>) = next_fault w" "next_fault (w\<lparr>secondary := p\<rparr>) = next_fault w"
  by (simp_all add: next_fault_def)

lemma bucket_set_bucket [simp]:
  "bucket (set_bucket b objs w) b' = (if b' = b then objs else bucket w b')"
  by (cases b; cases b') (simp_all add: set_bucket_def bucket_def)

lemma set_bucket_fields [simp]:
  "faults (set_bucket b objs w) = faults w" "clock (set_bucket b objs w) = clock w"
  "tick (set_bucket b objs w) = tick w" "calls (set_bucket b objs w) = calls w"
  "printed (set_bucket b objs w) = printed w"
  by (cases b; simp add: set_bucket_def)+

lemma print_msg_fields [simp]:
  "bucket (print_msg m w) b = bucket w b" "faults (print_msg m w) = faults w"
  "clock (print_msg m w) = clock w" "tick (print_msg m w) = tick w"
  "calls (print_msg m w) = calls w" "printed (print_msg m w) = printed w @ [m]"
  "next_fault (print_msg m w) = next_fault w"
  by (simp_all add: print_msg_def)

lemma get_object_fields [simp]:
  "bucket (snd (get_object b k w)) b' = bucket w b'"
  "faults (snd (get_object b k w)) = tl (faults w)"
  "clock (snd (get_object b k w)) = clock w"
  "tick (snd (get_object b k w)) = tick w"
  "printed (snd (get_object b k w)) = printed w"
  by (simp_all add: get_object_def take_fault_eq record_call_def
      split: option.split)

lemma get_object_fst:
  "fst (get_object b k w) =
     (case next_fault w of
        Some e \<Rightarrow> Inl e
      | None \<Rightarrow> (case map_of (bucket w b) k of None \<Rightarrow> Inl ''NoSuchKey'' | Some obj \<Rightarrow> Inr obj))"
  by (simp add: get_object_def take_fault_eq record_call_def split: option.split)

lemma get_object_calls:
  "calls (snd (get_object b k w)) =
     calls w @ [(GetObject b k, case fst (get_object b k w) of Inl e \<Rightarrow> Some e | Inr obj \<Rightarrow> None)]"
  by (simp add: get_object_def take_fault_eq record_call_def split: option.split)

lemma put_object_fields [simp]:
  "fst (put_object b k body w) = next_fault w"
  "bucket (snd (put_object b k body w)) b' =
     (if next_fault w = None \<and> b' = b
      then AList.update k \<lparr>LastModified = clock w (tick w), Body = body\<rparr> (bucket w b)
      else bucket w b')"
  "faults (snd (put_object b k body w)) = tl (faults w)"
  "clock (snd (put_object b k body w)) = clock w"
  "tick (snd (put_object b k body w)) = (if next_fault w = None then Suc (tick w) else tick w)"
  "printed (snd (put_object b k body w)) = printed w"
  "calls (snd (put_object b k body w)) = calls w @ [(PutObject b k body, next_fault w)]"
  by (simp_all add: put_object_def take_fault_eq record_call_def now_def
      split: option.split)

lemma delete_object_fields [simp]:
  "fst (delete_object b k w) = next_fault w"
  "bucket (snd (delete_object b k w)) b' =
     (if next_fault w = None \<and> b' = b then AList.delete k (bucket w b) else bucket w b')"
  "faults (snd (delete_object b k w)) = tl (faults w)"
  "clock (snd (delete_object b k w)) = clock w"
  "tick (snd (delete_object b k w)) = tick w"
  "printed (snd (delete_object b k w)) = printed w"
  "calls (snd (delete_object b k w)) = calls w @ [(DeleteObject b k, next_fault w)]"
  by (simp_all add: delete_object_def take_fault_eq record_call_def
      split: option.split)

lemma copy_fst:
  "fst (copy src k dst k' w) =
     (case next_fault w of
        Some e \<Rightarrow> Some e
      | None \<Rightarrow> (case map_of (bucket w src) k of None \<Rightarrow> Some ''404'' | Some obj \<Rightarrow> None))"
  by (simp add: copy_def take_fault_eq record_call_def now_def
      split: option.split)

lemma copy_fields [simp]:
  "bucket (snd (copy src k dst k' w)) b' =
     (case map_of (bucket w src) k of
        Some obj \<Rightarrow>
          if next_fault w = None \<and> b' = dst
          then AList.update k' \<lparr>LastModified = clock w (tick w), Body = Body obj\<rparr> (bucket w dst)
          else bucket w b'
      | None \<Rightarrow> bucket w b')"
  "faults (snd (copy src k dst k' w)) = tl (faults w)"
  "clock (snd (copy src k dst k' w)) = clock w"
  "printed (snd (copy src k dst k' w)) = printed w"
  "calls (snd (copy src k dst k' w)) = calls w @ [(CopyObject src k dst k', fst (copy src k dst k' w))]"
  by (simp_all add: copy_def take_fault_eq record_call_def now_def
      split: option.split)

lemma now_eq: "now w = (clock w (tick w), w\<lparr>tick := Suc (tick w)\<rparr>)"
  by (simp add: now_def)

subsection \<open>The decision taken for a key\<close>

lemma set_all_keys:
  "set (all_keys state pf sf) = fst ` set pf \<union> fst ` set sf \<union> fst ` set (files state)"
  by (simp add: all_keys_def)

lemma process_key_completed:
  "k \<in> completed \<Longrightarrow> process_key state pf sf k completed w = (Inr completed, w)"
  by (simp add: process_key_def)



subsection \<open>The progress log\<close>

text \<open>
  C10, as the claim states it, fails: a log that is there but whose body does not parse
  as JSON is a read failure that is not a \<open>ClientError\<close>. No handler catches it:
  \<open>load_progress_log\<close> raises, and the run ends there with the exception, after its
  three reads and before any listing.
\<close>

theorem C10_counterexample:
  "body_at ex_world_bad_log PRIMARY_BUCKET LOG_KEY = Some (Blob ''['')
   \<and> fst (load_progress_log ex_world_bad_log) = Inl DecodeError
   \<and> fst (replicate_resilient ex_world_bad_log) = Inl DecodeError
   \<and> map fst (calls (snd (replicate_resilient ex_world_bad_log))) =
       [GetObject PRIMARY_BUCKET STATE_KEY, GetObject SECONDARY_BUCKET STATE_KEY,
        GetObject PRIMARY_BUCKET LOG_KEY]
   \<and> fst (main ex_world_bad_log) = 1"
  by code_simp

text \<open>
  C10, amended. Whenever the read of the progress log raises a \<open>ClientError\<close>, whatever
  its error code, \<open>load_progress_log\<close> returns the empty set and raises nothing; it
  prints its warning unless the code is \<open>NoSuchKey\<close>; and \<open>replicate_resilient\<close> goes
  on from there with no key taken as completed. When the read succeeds, the result is
  what parsing the body gives: its keys, or, when the body does not parse, the exception
  of the parser.
\<close>

theorem C10_unreadable_log:
  "(\<forall>code. fst (get_object PRIMARY_BUCKET LOG_KEY w) = Inl code \<longrightarrow>
        fst (load_progress_log w) = Inr {}
      \<and> printed (snd (load_progress_log w)) =
          (if code = ''NoSuchKey'' then printed w
           else printed w @ [CouldNotLoadProgressLog code])
      \<and> (\<forall>w0 state. load_state w0 = (Inr (JObject state), w) \<longrightarrow>
            replicate_resilient w0 =
              (case run_from state {} (snd (load_progress_log w)) of (r, w3) \<Rightarrow> (Inr r, w3))))
   \<and> (\<forall>obj. fst (get_object PRIMARY_BUCKET LOG_KEY w) = Inr obj \<longrightarrow>
        fst (load_progress_log w) =
          (case decode_log (Body obj) of None \<Rightarrow> Inl DecodeError | Some ks \<Rightarrow> Inr (set ks)))"
proof (intro conjI allI impI)
  fix code
  assume g: "fst (get_object PRIMARY_BUCKET LOG_KEY w) = Inl code"
  then have l: "load_progress_log w =
      (Inr {}, if code = ''NoSuchKey'' then snd (get_object PRIMARY_BUCKET LOG_KEY w)
               else print_msg (CouldNotLoadProgressLog code)
                      (snd (get_object PRIMARY_BUCKET LOG_KEY w)))"
    by (simp add: load_progress_log_def split_beta)
  show "fst (load_progress_log w) = Inr {}"
    by (simp add: l)
  show "printed (snd (load_progress_log w)) =
          (if code = ''NoSuchKey'' then printed w
           else printed w @ [CouldNotLoadProgressLog code])"
    by (simp add: l print_msg_def)
  fix w0 state
  assume "load_state w0 = (Inr (JObject state), w)"
  then show "replicate_resilient w0 =
      (case run_from state {} (snd (load_progress_log w)) of (r, w3) \<Rightarrow> (Inr r, w3))"
    by (simp add: replicate_resilient_def l)
next
  fix obj
  assume "fst (get_object PRIMARY_BUCKET LOG_KEY w) = Inr obj"
  then show "fst (load_progress_log w) =
      (case decode_log (Body obj) of None \<Rightarrow> Inl DecodeError | Some ks \<Rightarrow> Inr (set ks))"
    by (simp add: load_progress_log_def split_beta split: option.split)
qed

theorem C10_unreadable_log_witness:
  "fst (get_object PRIMARY_BUCKET LOG_KEY (ex_world\<lparr>faults := [Some ''AccessDenied'']\<rparr>))
     = Inl ''AccessDenied''
   \<and> fst (load_progress_log (ex_world\<lparr>faults := [Some ''AccessDenied'']\<rparr>)) = Inr {}
   \<and> printed (snd (load_progress_log (ex_world\<lparr>faults := [Some ''AccessDenied'']\<rparr>)))
       = [CouldNotLoadProgressLog ''AccessDenied'']
   \<and> fst (get_object PRIMARY_BUCKET LOG_KEY
            (ex_world_log_secondary\<lparr>primary := secondary ex_world_log_secondary\<rparr>))
       = Inr \<lparr>LastModified = ''t1'', Body = LogDoc [''a'']\<rparr>
   \<and> fst (load_progress_log
            (ex_world_log_secondary\<lparr>primary := secondary ex_world_log_secondary\<rparr>))
       = Inr {''a''}"
proof -
  let ?w = "ex_world\<lparr>faults := [Some ''AccessDenied'']\<rparr>"
  let ?v = "ex_world_log_secondary\<lparr>primary := secondary ex_world_log_secondary\<rparr>"
  let ?obj = "\<lparr>LastModified = ''t1'', Body = LogDoc [''a'']\<rparr>"
  have g: "fst (get_object PRIMARY_BUCKET LOG_KEY ?w) = Inl ''AccessDenied''"
    by (simp add: get_object_def take_fault_def ex_world_def)
  have p: "printed ?w = []"
    by (simp add: ex_world_def)
  have h: "fst (get_object PRIMARY_BUCKET LOG_KEY ?v) = Inr ?obj"
    by (simp add: get_object_def take_fault_def ex_world_log_secondary_def bucket_def)
  have d: "decode_log (Body ?obj) = Some [''a'']"
    by (simp add: decode_log_def)
  from C10_unreadable_log [of ?w] g
  have 1: "fst (load_progress_log ?w) = Inr {}
      \<and> printed (snd (load_progress_log ?w)) =
          (if ''AccessDenied'' = ''NoSuchKey'' then printed ?w
           else printed ?w @ [CouldNotLoadProgressLog ''AccessDenied''])"
    by blast
  from C10_unreadable_log [of ?v] h
  have 2: "fst (load_progress_log ?v) =
      (case decode_log (Body ?obj) of None \<Rightarrow> Inl DecodeError | Some ks \<Rightarrow> Inr (set ks))"
    by blast
  from 1 p have 3: "fst (load_progress_log ?w) = Inr {}
      \<and> printed (snd (load_progress_log ?w)) = [CouldNotLoadProgressLog ''AccessDenied'']"
    by simp
  from 2 d have 4: "fst (load_progress_log ?v) = Inr {''a''}"
    by simp
  from g h 3 4 show ?thesis by blast
qed

text \<open>
  C7, as the claim states it, fails: with no log in the primary bucket and a readable
  log in the secondary bucket, \<open>load_progress_log\<close> returns the empty set, having asked
  the primary bucket only.
\<close>

theorem C7_counterexample:
  "fst (get_object SECONDARY_BUCKET LOG_KEY ex_world_log_secondary)
     = Inr \<lparr>LastModified = ''t1'', Body = LogDoc [''a'']\<rparr>
   \<and> fst (load_progress_log ex_world_log_secondary) = Inr {}
   \<and> calls (snd (load_progress_log ex_world_log_secondary))
       = [(GetObject PRIMARY_BUCKET LOG_KEY, Some ''NoSuchKey'')]"
  by code_simp

text \<open>
  C7, amended. \<open>load_progress_log\<close> makes one request, a read of the log in the
  primary bucket, and its result does not depend on the secondary bucket. When no fault
  meets the request, it returns the empty set if the primary bucket has no log, and the
  keys of the log the primary bucket holds otherwise.
\<close>

theorem C7_primary_only:
  "(\<exists>r. calls (snd (load_progress_log w)) = calls w @ [(GetObject PRIMARY_BUCKET LOG_KEY, r)])
   \<and> load_progress_log (w\<lparr>secondary := s\<rparr>)
       = (fst (load_progress_log w), (snd (load_progress_log w))\<lparr>secondary := s\<rparr>)
   \<and> (faults w = [] \<and> map_of (primary w) LOG_KEY = None \<longrightarrow> fst (load_progress_log w) = Inr {})
   \<and> (\<forall>obj ks. faults w = [] \<and> map_of (primary w) LOG_KEY = Some obj \<and> Body obj = LogDoc ks \<longrightarrow>
         fst (load_progress_log w) = Inr (set ks))"
  by (simp add: load_progress_log_def get_object_def take_fault_eq next_fault_def bucket_def
      record_call_def print_msg_def decode_log_def
      split: option.split list.split content.split)

theorem C7_primary_only_witness:
  "faults ex_world_log_secondary = [] \<and> map_of (primary ex_world_log_secondary) LOG_KEY = None
   \<and> fst (load_progress_log ex_world_log_secondary) = Inr {}
   \<and> fst (load_progress_log (ex_world_log_secondary\<lparr>primary := secondary ex_world_log_secondary\<rparr>))
       = Inr {''a''}"
proof -
  let ?w = ex_world_log_secondary
  let ?w2 = "ex_world_log_secondary\<lparr>primary := secondary ex_world_log_secondary\<rparr>"
  let ?obj = "\<lparr>LastModified = ''t1'', Body = LogDoc [''a'']\<rparr>"
  have f1: "faults ?w = []" and m1: "map_of (primary ?w) LOG_KEY = None"
    by (simp_all add: ex_world_log_secondary_def)
  have r1: "fst (load_progress_log ?w) = Inr {}"
    using C7_primary_only [of ?w] f1 m1 by blast
  have h2: "faults ?w2 = [] \<and> map_of (primary ?w2) LOG_KEY = Some ?obj \<and> Body ?obj = LogDoc [''a'']"
    by (simp add: ex_world_log_secondary_def)
  have "\<forall>obj ks. faults ?w2 = [] \<and> map_of (primary ?w2) LOG_KEY = Some obj \<and> Body obj = LogDoc ks \<longrightarrow>
         fst (load_progress_log ?w2) = Inr (set ks)"
    using C7_primary_only [of ?w2] by blast
  then have "fst (load_progress_log ?w2) = Inr (set [''a''])"
    using h2 by blast
  then have r2: "fst (load_progress_log ?w2) = Inr {''a''}"
    by simp
  show ?thesis
    using f1 m1 r1 r2 by simp
qed

subsection \<open>Saving and rebuilding the state\<close>

lemma save_state_loop_two:
  "save_state_loop [PRIMARY_BUCKET, SECONDARY_BUCKET] doc w =
     (let w1 = snd (put_object PRIMARY_BUCKET STATE_KEY doc w);
          w2 = (case next_fault w of None \<Rightarrow> w1
                | Some e \<Rightarrow> print_msg (CouldNotSaveState PRIMARY_BUCKET e) w1);
          w3 = snd (put_object SECONDARY_BUCKET STATE_KEY doc w2)
      in case next_fault w2 of None \<Rightarrow> w3
         | Some e \<Rightarrow> print_msg (CouldNotSaveState SECONDARY_BUCKET e) w3)"
  by (simp add: Let_def split_beta split: option.split)

lemma next_fault_tl: "next_fault (w\<lparr>faults := tl (faults w)\<rparr>) = (case faults w of f # g # fs \<Rightarrow> g | _ \<Rightarrow> None)"
  by (simp add: next_fault_def split: list.split)

text \<open>
  C8, as the claim states it, fails: when both writes of the state fail, \<open>save_state\<close>
  prints two warnings and returns, neither bucket holds a state, and the run ends with
  exit status 0.
\<close>

theorem C8_counterexample:
  "printed (save_state ex_state (ex_world\<lparr>faults := [Some ''SlowDown'', Some ''SlowDown'']\<rparr>))
     = [CouldNotSaveState PRIMARY_BUCKET ''SlowDown'', CouldNotSaveState SECONDARY_BUCKET ''SlowDown'']
   \<and> map_of (primary (save_state ex_state (ex_world\<lparr>faults := [Some ''SlowDown'', Some ''SlowDown'']\<rparr>)))
        STATE_KEY = None
   \<and> map_of (secondary (save_state ex_state (ex_world\<lparr>faults := [Some ''SlowDown'', Some ''SlowDown'']\<rparr>)))
        STATE_KEY = None
   \<and> fst (main (ex_world\<lparr>faults := replicate 10 None @ [Some ''SlowDown'', Some ''SlowDown'']\<rparr>)) = 0"
  by code_simp

text \<open>
  C8, amended. \<open>save_state\<close> stamps the state with the time read at its start and makes
  two requests, a write to the primary and then to the secondary bucket, whatever the
  first one's outcome. Each failed write prints a warning naming its bucket; each
  successful write leaves the stamped state in its bucket. No outcome, a failure of both
  writes included, is reported to the caller: \<open>save_state\<close> always returns.
\<close>

theorem C8_save_state_warns:
  "calls (save_state state w) =
     calls w @
     [(PutObject PRIMARY_BUCKET STATE_KEY (StateDoc (state\<lparr>last_updated := clock w (tick w)\<rparr>)),
       next_fault w),
      (PutObject SECONDARY_BUCKET STATE_KEY (StateDoc (state\<lparr>last_updated := clock w (tick w)\<rparr>)),
       next_fault (w\<lparr>faults := tl (faults w)\<rparr>))]
   \<and> printed (save_state state w) =
       printed w @
       (case next_fault w of None \<Rightarrow> [] | Some e \<Rightarrow> [CouldNotSaveState PRIMARY_BUCKET e]) @
       (case next_fault (w\<lparr>faults := tl (faults w)\<rparr>) of
          None \<Rightarrow> [] | Some e \<Rightarrow> [CouldNotSaveState SECONDARY_BUCKET e])
   \<and> map_option Body (map_of (primary (save_state state w)) STATE_KEY) =
       (if next_fault w = None then Some (StateDoc (state\<lparr>last_updated := clock w (tick w)\<rparr>))
        else map_option Body (map_of (primary w) STATE_KEY))
   \<and> map_option Body (map_of (secondary (save_state state w)) STATE_KEY) =
       (if next_fault (w\<lparr>faults := tl (faults w)\<rparr>) = None
        then Some (StateDoc (state\<lparr>last_updated := clock w (tick w)\<rparr>))
        else map_option Body (map_of (secondary w) STATE_KEY))"
proof -
  let ?w0 = "w\<lparr>tick := Suc (tick w)\<rparr>"
  let ?doc = "StateDoc (state\<lparr>last_updated := clock w (tick w)\<rparr>)"
  have nf: "next_fault (snd (put_object PRIMARY_BUCKET STATE_KEY ?doc ?w0)) =
            next_fault (w\<lparr>faults := tl (faults w)\<rparr>)"
    by (simp add: next_fault_def)
  have eq: "save_state state w = save_state_loop [PRIMARY_BUCKET, SECONDARY_BUCKET] ?doc ?w0"
    by (simp add: save_state_def now_eq Let_def del: save_state_loop.simps)
  have c: "calls (save_state state w) =
     calls w @ [(PutObject PRIMARY_BUCKET STATE_KEY ?doc, next_fault w),
                (PutObject SECONDARY_BUCKET STATE_KEY ?doc, next_fault (w\<lparr>faults := tl (faults w)\<rparr>))]"
    unfolding eq save_state_loop_two
    by (simp add: Let_def nf split: option.split)
  have p: "printed (save_state state w) =
       printed w @
       (case next_fault w of None \<Rightarrow> [] | Some e \<Rightarrow> [CouldNotSaveState PRIMARY_BUCKET e]) @
       (case next_fault (w\<lparr>faults := tl (faults w)\<rparr>) of
          None \<Rightarrow> [] | Some e \<Rightarrow> [CouldNotSaveState SECONDARY_BUCKET e])"
    unfolding eq save_state_loop_two
    by (simp add: Let_def nf split: option.split)
  have b1: "map_option Body (map_of (bucket (save_state state w) PRIMARY_BUCKET) STATE_KEY) =
       (if next_fault w = None then Some ?doc
        else map_option Body (map_of (bucket w PRIMARY_BUCKET) STATE_KEY))"
    unfolding eq save_state_loop_two
    by (auto simp: Let_def nf update_conv' split: option.split)
  have b2: "map_option Body (map_of (bucket (save_state state w) SECONDARY_BUCKET) STATE_KEY) =
       (if next_fault (w\<lparr>faults := tl (faults w)\<rparr>) = None then Some ?doc
        else map_option Body (map_of (bucket w SECONDARY_BUCKET) STATE_KEY))"
    unfolding eq save_state_loop_two
    by (auto simp: Let_def nf update_conv' split: option.split)
  show ?thesis
    using c p b1 b2 by (simp add: bucket_simps)
qed

lemma rebuild_entry_eq:
  "rebuild_entry pf sf k w =
     (\<lparr>last_synced = clock w (tick w),
       last_seen_in = (if k \<in> fst ` set pf then [''primary''] else []) @
                      (if k \<in> fst ` set sf then [''secondary''] else []),
       source = (if get_default pf k [] > get_default sf k [] then ''primary''
                 else if get_default sf k [] > get_default pf k [] then ''secondary''
                 else ''equal'')\<rparr>,
      w\<lparr>tick := Suc (tick w)\<rparr>)"
  by (simp add: rebuild_entry_def now_eq Let_def)

lemma rebuild_loop_other:
  "k \<notin> set ks \<Longrightarrow> map_of (fst (rebuild_loop pf sf ks fs w)) k = map_of fs k"
  by (induction ks arbitrary: fs w) (simp_all add: rebuild_entry_eq update_conv')

lemma rebuild_loop_keys:
  "fst ` set (fst (rebuild_loop pf sf ks fs w)) = fst ` set fs \<union> set ks"
  by (induction ks arbitrary: fs w) (auto simp: rebuild_entry_eq dom_update)

lemma rebuild_loop_nth:
  "distinct ks \<Longrightarrow> i < length ks \<Longrightarrow>
   map_of (fst (rebuild_loop pf sf ks fs w)) (ks ! i) =
     Some (fst (rebuild_entry pf sf (ks ! i) (w\<lparr>tick := tick w + i\<rparr>)))"
proof (induction ks arbitrary: fs w i)
  case Nil
  then show ?case by simp
next
  case (Cons k ks)
  show ?case
  proof (cases i)
    case 0
    then show ?thesis
      using Cons.prems by (simp add: rebuild_entry_eq rebuild_loop_other update_conv')
  next
    case (Suc j)
    then show ?thesis
      using Cons.prems Cons.IH [of j "AList.update k (fst (rebuild_entry pf sf k w)) fs" "w\<lparr>tick := Suc (tick w)\<rparr>"]
      by (simp add: rebuild_entry_eq)
  qed
qed

text \<open>
  C6, as the claim states it, fails: a key listed in the primary bucket only has no time
  stamp on the secondary side, and its source is \<open>primary\<close>, not \<open>equal\<close>.
\<close>

theorem C6_counterexample:
  "fst (rebuild_files_state [(''a'', ''t1'')] [] ex_world)
     = [(''a'', \<lparr>last_synced = ''t2'', last_seen_in = [''primary''], source = ''primary''\<rparr>)]"
  by code_simp

text \<open>
  C6, amended. For every key of the two listings the rebuilt files hold a record whose
  \<open>last_seen_in\<close> names exactly the buckets that list the key (primary first), whose
  \<open>last_synced\<close> is a time read from the clock during the rebuild, and whose \<open>source\<close>
  is the bucket with the strictly greater time stamp, or \<open>equal\<close> when the two are the
  same, a missing time stamp counting as the empty string: so a key listed on one side
  only has that side as its source (\<open>equal\<close> if its time stamp is the empty string).
\<close>

theorem C6_rebuilt_record:
  assumes "k \<in> fst ` set pf \<union> fst ` set sf"
  shows "\<exists>r i. map_of (fst (rebuild_files_state pf sf w)) k = Some r
     \<and> last_seen_in r = (if k \<in> fst ` set pf then [''primary''] else []) @
                        (if k \<in> fst ` set sf then [''secondary''] else [])
     \<and> i < card (fst ` set pf \<union> fst ` set sf) \<and> last_synced r = clock w (tick w + i)
     \<and> source r = (if get_default pf k [] > get_default sf k [] then ''primary''
                   else if get_default sf k [] > get_default pf k [] then ''secondary''
                   else ''equal'')
     \<and> (k \<notin> fst ` set sf \<longrightarrow> source r = (if get_default pf k [] = [] then ''equal'' else ''primary''))
     \<and> (k \<notin> fst ` set pf \<longrightarrow> source r = (if get_default sf k [] = [] then ''equal'' else ''secondary''))"
proof -
  let ?A = "fst ` set pf \<union> fst ` set sf"
  let ?ks = "sorted_list_of_set ?A"
  have fin: "finite ?A" by simp
  have ks: "set ?ks = ?A" "distinct ?ks" "length ?ks = card ?A"
    using fin by simp_all
  from assms ks(1) obtain i where i: "i < length ?ks" "?ks ! i = k"
    by (metis in_set_conv_nth)
  have m: "map_of (fst (rebuild_files_state pf sf w)) k =
           Some (fst (rebuild_entry pf sf k (w\<lparr>tick := tick w + i\<rparr>)))"
    using rebuild_loop_nth [OF ks(2) i(1), of pf sf "[]" w] i(2)
    by (simp add: rebuild_files_state_def)
  have s: "k \<notin> fst ` set sf \<Longrightarrow> get_default sf k [] = []"
    by (simp add: get_default_def map_of_eq_None_iff [THEN iffD2])
  have p: "k \<notin> fst ` set pf \<Longrightarrow> get_default pf k [] = []"
    by (simp add: get_default_def map_of_eq_None_iff [THEN iffD2])
  have pos: "\<And>x :: string. [] < x \<longleftrightarrow> x \<noteq> []"
    by (case_tac x) simp_all
  show ?thesis
    apply (rule exI [of _ "fst (rebuild_entry pf sf k (w\<lparr>tick := tick w + i\<rparr>))"])
    apply (rule exI [of _ i])
    using m i(1) ks(3) s p
    by (auto simp: rebuild_entry_eq pos)
qed

theorem C6_rebuilt_record_witness:
  "''a'' \<in> fst ` set [(''a'', ''t1'')] \<union> fst ` set ([] :: (key \<times> timestamp) list)
   \<and> (\<exists>r. map_of (fst (rebuild_files_state [(''a'', ''t1'')] [] ex_world)) ''a'' = Some r
          \<and> last_seen_in r = [''primary''] \<and> source r = ''primary'')"
proof -
  have k: "''a'' \<in> fst ` set [(''a'', ''t1'')] \<union> fst ` set ([] :: (key \<times> timestamp) list)"
    by simp
  have g: "get_default [(''a'', ''t1'')] ''a'' [] = ''t1''"
    by (simp add: get_default_def)
  from C6_rebuilt_record [OF k, of ex_world] g show ?thesis
    using k by auto
qed

subsection \<open>The requests of a run\<close>

lemma calls_extend_refl: "calls_extend P w w"
  by (simp add: calls_extend_def)

lemma calls_extend_trans:
  "calls_extend P w w' \<Longrightarrow> calls_extend P w' w'' \<Longrightarrow> calls_extend P w w''"
  by (auto simp: calls_extend_def)

lemma calls_extend_same: "calls w'' = calls w' \<Longrightarrow> calls_extend P w w' \<Longrightarrow> calls_extend P w w''"
  by (simp add: calls_extend_def)

lemma calls_extend_one: "calls w' = calls w @ [(c, r)] \<Longrightarrow> P c \<Longrightarrow> calls_extend P w w'"
  by (simp add: calls_extend_def)


lemma calls_extend_new_calls:
  "calls_extend P w w' \<Longrightarrow> list_all (\<lambda>c. P (fst c)) (new_calls w w')"
  by (auto simp: calls_extend_def new_calls_def)

lemma calls_extend_print:
  "calls_extend P w w' \<Longrightarrow> calls_extend P w (print_msg m w')"
  by (rule calls_extend_same [of _ w']) simp_all

lemma get_object_extend: "P (GetObject b k) \<Longrightarrow> calls_extend P w (snd (get_object b k w))"
  by (rule calls_extend_one [OF get_object_calls])

lemma put_object_extend:
  "P (PutObject b k body) \<Longrightarrow> calls_extend P w (snd (put_object b k body w))"
  by (rule calls_extend_one [of _ _ _ "next_fault w"]) simp_all

lemma delete_object_extend:
  "P (DeleteObject b k) \<Longrightarrow> calls_extend P w (snd (delete_object b k w))"
  by (rule calls_extend_one [of _ _ _ "next_fault w"]) simp_all

lemma copy_extend:
  "P (CopyObject src k dst k') \<Longrightarrow> calls_extend P w (snd (copy src k dst k' w))"
  by (rule calls_extend_one [of _ _ _ "fst (copy src k dst k' w)"]) simp_all

lemma load_state_loop_extend:
  "(\<And>b. P (GetObject b STATE_KEY)) \<Longrightarrow> calls_extend P w (snd (load_state_loop bs st w))"
proof (induction bs arbitrary: st w)
  case Nil
  show ?case by (simp add: calls_extend_refl)
next
  case (Cons b bs)
  have g: "calls_extend P w (snd (get_object b STATE_KEY w))"
    by (rule get_object_extend) (rule Cons.prems)
  show ?case
    by (auto simp: split_beta split: sum.split option.split json.split
        intro: g calls_extend_trans [OF g Cons.IH] Cons.prems)
qed

lemma load_state_extend:
  "(\<And>b. P (GetObject b STATE_KEY)) \<Longrightarrow> calls_extend P w (snd (load_state w))"
  using load_state_loop_extend [of P w "[PRIMARY_BUCKET, SECONDARY_BUCKET]" None]
  by (auto simp: load_state_def now_eq split_beta calls_extend_def print_msg_def
      simp del: load_state_loop.simps split: sum.split option.split)

lemma load_progress_log_extend:
  "P (GetObject PRIMARY_BUCKET LOG_KEY) \<Longrightarrow> calls_extend P w (snd (load_progress_log w))"
  using get_object_extend [of P PRIMARY_BUCKET LOG_KEY w]
  by (auto simp: load_progress_log_def split_beta calls_extend_print
      split: sum.split option.split)

lemma list_pages_extend:
  "P (ListObjectsV2 b) \<Longrightarrow> calls_extend P w (snd (list_pages b pages result w))"
proof (induction pages arbitrary: result w)
  case Nil
  show ?case by (simp add: calls_extend_refl)
next
  case (Cons page pages)
  have s: "calls_extend P w (record_call (ListObjectsV2 b) r (w\<lparr>faults := tl (faults w)\<rparr>))" for r
    by (rule calls_extend_one [of _ _ "ListObjectsV2 b" r]) (simp_all add: record_call_def Cons.prems)
  show ?case
    by (auto simp: take_fault_eq split: option.split
        intro: calls_extend_print s calls_extend_trans [OF s Cons.IH] Cons.prems)
qed

lemma list_bucket_objects_extend:
  "P (ListObjectsV2 b) \<Longrightarrow> calls_extend P w (snd (list_bucket_objects b w))"
  by (simp add: list_bucket_objects_def list_pages_extend)

lemma save_log_loop_extend:
  "(\<And>b. P (PutObject b LOG_KEY doc)) \<Longrightarrow> calls_extend P w (save_log_loop bs doc w)"
proof (induction bs arbitrary: w)
  case Nil
  show ?case by (simp add: calls_extend_refl)
next
  case (Cons b bs)
  have p: "calls_extend P w (snd (put_object b LOG_KEY doc w))"
    by (rule put_object_extend) (rule Cons.prems)
  have q: "calls_extend P w (print_msg m (snd (put_object b LOG_KEY doc w)))" for m
    by (rule calls_extend_print) (rule p)
  show ?case
    using calls_extend_trans [OF p Cons.IH] calls_extend_trans [OF q Cons.IH] Cons.prems
    by (auto simp: split_beta split: option.split)
qed

lemma save_progress_log_extend:
  "(\<And>b. P (PutObject b LOG_KEY (LogDoc (sorted_list_of_set S)))) \<Longrightarrow>
   calls_extend P w (save_progress_log S w)"
  using save_log_loop_extend [of P "LogDoc (sorted_list_of_set S)" w]
  by (simp add: save_progress_log_def del: save_log_loop.simps)

lemma perform_calls:
  "calls (snd (perform a k w)) =
     calls w @ (case request a k of None \<Rightarrow> [] | Some c \<Rightarrow> [(c, fst (perform a k w))])"
  by (cases a) (simp_all add: perform_def request_def)

lemma perform_extend:
  "(\<And>c. request a k = Some c \<Longrightarrow> P c) \<Longrightarrow> calls_extend P w (snd (perform a k w))"
  by (cases "request a k") (simp_all add: calls_extend_def perform_calls)

lemma process_key_extend:
  assumes "\<And>c. k \<notin> completed \<Longrightarrow> request (choose_action state pf sf k) k = Some c \<Longrightarrow> P c"
    and "\<And>b. P (PutObject b LOG_KEY (LogDoc (sorted_list_of_set (insert k completed))))"
  shows "calls_extend P w (snd (process_key state pf sf k completed w))"
proof (cases "k \<in> completed")
  case True
  then show ?thesis by (simp add: process_key_def calls_extend_refl)
next
  case False
  let ?a = "choose_action state pf sf k"
  have p: "calls_extend P w (snd (perform ?a k w))"
    by (rule perform_extend) (rule assms(1) [OF False])
  have s: "calls_extend P (snd (perform ?a k w))
             (save_progress_log (insert k completed) (snd (perform ?a k w)))"
    by (rule save_progress_log_extend) (rule assms(2))
  show ?thesis
    using False p calls_extend_trans [OF p s] calls_extend_print [OF p]
    by (auto simp: process_key_def Let_def split_beta split: option.split)
qed

lemma sync_loop_extend:
  assumes "\<And>k c. k \<in> set ks \<Longrightarrow> k \<notin> completed \<Longrightarrow>
             request (choose_action state pf sf k) k = Some c \<Longrightarrow> P c"
    and "\<And>b doc. P (PutObject b LOG_KEY doc)"
  shows "calls_extend P w (snd (sync_loop state pf sf ks completed w))"
  using assms(1)
proof (induction ks arbitrary: completed w)
  case Nil
  show ?case by (simp add: calls_extend_refl)
next
  case (Cons k ks)
  let ?r = "process_key state pf sf k completed w"
  have p: "calls_extend P w (snd ?r)"
    by (rule process_key_extend) (auto intro: Cons.prems assms(2))
  show ?case
  proof (cases "fst ?r")
    case (Inl e)
    then show ?thesis using p by (simp add: split_beta)
  next
    case (Inr c')
    have sub: "completed \<subseteq> c'"
      using Inr by (auto simp: process_key_def Let_def split_beta split: if_splits option.splits)
    have "calls_extend P (snd ?r) (snd (sync_loop state pf sf ks c' (snd ?r)))"
      by (rule Cons.IH) (use sub in \<open>auto intro: Cons.prems\<close>)
    then show ?thesis
      using Inr p by (auto simp: split_beta intro: calls_extend_trans)
  qed
qed

lemma process_key_mono:
  "fst (process_key state pf sf k completed w) = Inr c' \<Longrightarrow> completed \<subseteq> c'"
  by (auto simp: process_key_def Let_def split_beta split: if_splits option.splits)

lemma sync_loop_mono:
  "fst (sync_loop state pf sf ks completed w) = Inr c' \<Longrightarrow> completed \<subseteq> c'"
proof (induction ks arbitrary: completed w)
  case Nil
  then show ?case by simp
next
  case (Cons k ks)
  show ?case
  proof (cases "fst (process_key state pf sf k completed w)")
    case (Inl e)
    then show ?thesis using Cons.prems by (simp add: split_beta)
  next
    case (Inr c1)
    then have "fst (sync_loop state pf sf ks c1 (snd (process_key state pf sf k completed w))) = Inr c'"
      using Cons.prems by (simp add: split_beta)
    then have "c1 \<subseteq> c'" by (rule Cons.IH)
    with process_key_mono [OF Inr] show ?thesis by blast
  qed
qed

lemma add_page_keys:
  "fst ` set (add_page page result) \<subseteq> fst ` set result \<union> (fst ` set page - {STATE_KEY, LOG_KEY})"
proof (induction page arbitrary: result)
  case Nil
  show ?case by simp
next
  case (Cons x page)
  obtain k obj where x: "x = (k, obj)" by (cases x)
  show ?case
    using Cons.IH [of "AList.update k (LastModified obj) result"] Cons.IH [of result]
    by (auto simp: x dom_update)
qed

lemma subset_chain:
  "A \<subseteq> B \<union> (C - X) \<Longrightarrow> B \<subseteq> R \<union> (P - X) \<Longrightarrow> A \<subseteq> R \<union> ((P \<union> C) - X)"
  by blast

lemma list_pages_keys:
  "fst ` set (fst (list_pages b pages result w)) \<subseteq>
     fst ` set result \<union> (fst ` set (concat pages) - {STATE_KEY, LOG_KEY})"
proof (induction pages arbitrary: result w)
  case Nil
  show ?case by simp
next
  case (Cons page pages)
  have c: "fst ` set (concat (page # pages)) = fst ` set page \<union> fst ` set (concat pages)"
    by (simp add: image_Un)
  show ?case
  proof (cases "next_fault w")
    case (Some e)
    have "fst (list_pages b (page # pages) result w) = result"
      using Some by (simp add: take_fault_eq)
    then show ?thesis by simp
  next
    case None
    let ?w = "record_call (ListObjectsV2 b) None (w\<lparr>faults := tl (faults w)\<rparr>)"
    have e: "fst (list_pages b (page # pages) result w) =
          fst (list_pages b pages (add_page page result) ?w)"
      using None by (simp add: take_fault_eq)
    have i: "fst ` set (fst (list_pages b pages (add_page page result) ?w)) \<subseteq>
          fst ` set (add_page page result) \<union> (fst ` set (concat pages) - {STATE_KEY, LOG_KEY})"
      by (rule Cons.IH)
    show ?thesis
      unfolding e c by (rule subset_chain [OF i add_page_keys])
  qed
qed

lemma list_bucket_objects_no_control:
  "STATE_KEY \<notin> fst ` set (fst (list_bucket_objects b w))"
  "LOG_KEY \<notin> fst ` set (fst (list_bucket_objects b w))"
  using list_pages_keys [of b "pages_of (bucket w b)" "[]" w]
  by (auto simp: list_bucket_objects_def)

lemma choose_action_listed:
  "choose_action state pf sf k \<noteq> NO_ACTION \<Longrightarrow> k \<in> fst ` set pf \<union> fst ` set sf"
  by (auto simp: choose_action_def truthy_def Let_def map_of_eq_None_iff [symmetric]
      split: if_splits option.splits)

lemma request_key:
  "request a k = Some c \<Longrightarrow> a \<noteq> NO_ACTION \<and> (\<forall>b. c = DeleteObject b LOG_KEY \<longrightarrow> k = LOG_KEY)"
  by (cases a) (auto simp: request_def)

lemma save_state_loop_extend:
  "(\<And>b. P (PutObject b STATE_KEY doc)) \<Longrightarrow> calls_extend P w (save_state_loop bs doc w)"
proof (induction bs arbitrary: w)
  case Nil
  show ?case by (simp add: calls_extend_refl)
next
  case (Cons b bs)
  have p: "calls_extend P w (snd (put_object b STATE_KEY doc w))"
    by (rule put_object_extend) (rule Cons.prems)
  have q: "calls_extend P w (print_msg m (snd (put_object b STATE_KEY doc w)))" for m
    by (rule calls_extend_print) (rule p)
  show ?case
    using calls_extend_trans [OF p Cons.IH] calls_extend_trans [OF q Cons.IH] Cons.prems
    by (auto simp: split_beta split: option.split)
qed

lemma save_state_extend:
  "(\<And>b doc. P (PutObject b STATE_KEY doc)) \<Longrightarrow> calls_extend P w (save_state state w)"
proof -
  assume a: "\<And>b doc. P (PutObject b STATE_KEY doc)"
  let ?doc = "StateDoc (state\<lparr>last_updated := clock w (tick w)\<rparr>)"
  let ?w = "w\<lparr>tick := Suc (tick w)\<rparr>"
  have "calls_extend P ?w (save_state_loop [PRIMARY_BUCKET, SECONDARY_BUCKET] ?doc ?w)"
    by (rule save_state_loop_extend) (rule a)
  then show ?thesis
    by (simp add: save_state_def now_eq Let_def calls_extend_def del: save_state_loop.simps)
qed

lemma rebuild_loop_calls: "calls (snd (rebuild_loop pf sf ks fs w)) = calls w"
  by (induction ks arbitrary: fs w) (simp_all add: rebuild_entry_eq)

lemma rebuild_files_state_calls: "calls (snd (rebuild_files_state pf sf w)) = calls w"
  by (simp add: rebuild_files_state_def rebuild_loop_calls)

lemma delete_progress_log_calls:
  "\<exists>r1 r2. calls (delete_progress_log w) =
     calls w @ [(DeleteObject PRIMARY_BUCKET LOG_KEY, r1), (DeleteObject SECONDARY_BUCKET LOG_KEY, r2)]"
  by (simp add: delete_progress_log_def split_beta split: option.split)

lemma discover_extend:
  "(\<And>b. P (ListObjectsV2 b)) \<Longrightarrow> calls_extend P w (snd (discover state prior w))"
proof -
  assume a: "\<And>b. P (ListObjectsV2 b)"
  let ?w2 = "print_msg Discovering
               (if prior \<noteq> {} then print_msg (Resuming (card prior)) w else w)"
  let ?l1 = "list_bucket_objects PRIMARY_BUCKET ?w2"
  let ?l2 = "list_bucket_objects SECONDARY_BUCKET (snd ?l1)"
  have 0: "calls_extend P w ?w2"
    by (simp add: calls_extend_def)
  have 1: "calls_extend P ?w2 (snd ?l1)"
    by (rule list_bucket_objects_extend) (rule a)
  have 2: "calls_extend P (snd ?l1) (snd ?l2)"
    by (rule list_bucket_objects_extend) (rule a)
  have "calls_extend P w (snd ?l2)"
    by (rule calls_extend_trans [OF calls_extend_trans [OF 0 1] 2])
  then show ?thesis
    by (simp add: discover_def Let_def split_beta calls_extend_print)
qed


lemma discover_listings:
  "LOG_KEY \<notin> fst ` set (fst (fst (discover state prior w)))"
  "LOG_KEY \<notin> fst ` set (fst (snd (fst (discover state prior w))))"
  by (simp_all add: discover_def Let_def split_beta list_bucket_objects_no_control)

lemma discover_keys:
  "snd (snd (fst (discover state prior w))) =
     all_keys state (fst (fst (discover state prior w))) (fst (snd (fst (discover state prior w))))"
  by (simp add: discover_def Let_def split_beta)

lemma finish_calls:
  assumes "\<And>b. P (ListObjectsV2 b)" and "\<And>b doc. P (PutObject b STATE_KEY doc)"
  shows "\<exists>cs r1 r2. calls (finish state w) =
           calls w @ cs @ [(DeleteObject PRIMARY_BUCKET LOG_KEY, r1),
                           (DeleteObject SECONDARY_BUCKET LOG_KEY, r2)]
         \<and> list_all (\<lambda>c. P (fst c)) cs"
proof -
  let ?w1 = "print_msg SyncActionsComplete w"
  let ?l1 = "list_bucket_objects PRIMARY_BUCKET ?w1"
  let ?l2 = "list_bucket_objects SECONDARY_BUCKET (snd ?l1)"
  let ?rb = "rebuild_files_state (fst ?l1) (fst ?l2) (snd ?l2)"
  let ?w5 = "save_state (state\<lparr>files := fst ?rb\<rparr>) (snd ?rb)"
  let ?w6 = "print_msg CleaningUp ?w5"
  have 0: "calls_extend P w ?w1" by (simp add: calls_extend_def)
  have 1: "calls_extend P ?w1 (snd ?l1)"
    by (rule list_bucket_objects_extend) (rule assms(1))
  have 2: "calls_extend P (snd ?l1) (snd ?l2)"
    by (rule list_bucket_objects_extend) (rule assms(1))
  have 3: "calls_extend P (snd ?l2) (snd ?rb)"
    by (simp add: calls_extend_def rebuild_files_state_calls)
  have 4: "calls_extend P (snd ?rb) ?w5"
    by (rule save_state_extend) (rule assms(2))
  have "calls_extend P w ?w6"
    by (rule calls_extend_print)
       (rule calls_extend_trans [OF calls_extend_trans [OF calls_extend_trans
          [OF calls_extend_trans [OF 0 1] 2] 3] 4])
  then obtain cs where cs: "calls ?w6 = calls w @ cs" "list_all (\<lambda>c. P (fst c)) cs"
    by (auto simp: calls_extend_def)
  have f: "finish state w = delete_progress_log ?w6"
    by (simp add: finish_def Let_def split_beta)
  from delete_progress_log_calls [of ?w6] obtain r1 r2 where
    "calls (delete_progress_log ?w6) =
       calls ?w6 @ [(DeleteObject PRIMARY_BUCKET LOG_KEY, r1), (DeleteObject SECONDARY_BUCKET LOG_KEY, r2)]"
    by blast
  with cs f show ?thesis by auto
qed

lemma is_log_delete_simps [simp]:
  "\<not> is_log_delete (GetObject b k)" "\<not> is_log_delete (PutObject b k doc)"
  "\<not> is_log_delete (CopyObject b k b' k')" "\<not> is_log_delete (ListObjectsV2 b)"
  "is_log_delete (DeleteObject b k) \<longleftrightarrow> k = LOG_KEY"
  by (simp_all add: is_log_delete_def)






lemma save_log_loop_two:
  "save_log_loop [PRIMARY_BUCKET, SECONDARY_BUCKET] doc w =
     (let w1 = snd (put_object PRIMARY_BUCKET LOG_KEY doc w);
          w2 = (case next_fault w of None \<Rightarrow> w1
                | Some e \<Rightarrow> print_msg (CouldNotSaveProgressLog PRIMARY_BUCKET e) w1);
          w3 = snd (put_object SECONDARY_BUCKET LOG_KEY doc w2)
      in case next_fault w2 of None \<Rightarrow> w3
         | Some e \<Rightarrow> print_msg (CouldNotSaveProgressLog SECONDARY_BUCKET e) w3)"
  by (simp add: Let_def split_beta split: option.split)

lemma next_fault_after_put:
  "next_fault (snd (put_object b k doc w)) = next_fault (w\<lparr>faults := tl (faults w)\<rparr>)"
  by (simp add: next_fault_def)

lemma save_progress_log_calls:
  "calls (save_progress_log S w) =
     calls w @
     [(PutObject PRIMARY_BUCKET LOG_KEY (LogDoc (sorted_list_of_set S)), next_fault w),
      (PutObject SECONDARY_BUCKET LOG_KEY (LogDoc (sorted_list_of_set S)),
       next_fault (w\<lparr>faults := tl (faults w)\<rparr>))]"
  unfolding save_progress_log_def save_log_loop_two
  by (simp add: Let_def next_fault_after_put split: option.split)

lemma save_progress_log_stored:
  "next_fault w = None \<Longrightarrow> next_fault (w\<lparr>faults := tl (faults w)\<rparr>) = None \<Longrightarrow>
   map_option Body (map_of (bucket (save_progress_log S w) b) LOG_KEY) =
     Some (LogDoc (sorted_list_of_set S))"
  unfolding save_progress_log_def save_log_loop_two
  by (cases b) (simp_all add: Let_def next_fault_after_put update_conv')







subsection \<open>The walk of the keys\<close>

lemma request_None: "request a k = None \<longleftrightarrow> a = NO_ACTION"
  by (cases a) (simp_all add: request_def)

lemma action_key_simps [simp]:
  "action_key (GetObject b k) = None" "action_key (PutObject b k d) = None"
  "action_key (ListObjectsV2 b) = None" "action_key (DeleteObject b LOG_KEY) = None"
  by (simp_all add: action_key_def)

lemma sync_loop_trace:
  assumes "distinct ks"
    and "\<forall>k \<in> set ks. \<forall>rq. request (choose_action state pf sf k) k = Some rq \<longrightarrow>
           action_key rq \<noteq> None"
  shows "\<exists>cs. calls (snd (sync_loop state pf sf ks c w)) = calls w @ cs
      \<and> (case fst (sync_loop state pf sf ks c w) of
           Inr c' \<Rightarrow>
             filter (\<lambda>x. action_key x \<noteq> None) (map fst cs) =
               List.map_filter (\<lambda>k. request (choose_action state pf sf k) k)
                 (filter (\<lambda>k. k \<notin> c) ks)
         | Inl e \<Rightarrow>
             cs \<noteq> [] \<and> snd (last cs) = Some e
           \<and> (\<exists>n < length (List.map_filter (\<lambda>k. request (choose_action state pf sf k) k)
                              (filter (\<lambda>k. k \<notin> c) ks)).
                 filter (\<lambda>x. action_key x \<noteq> None) (map fst cs) =
                   take (Suc n) (List.map_filter (\<lambda>k. request (choose_action state pf sf k) k)
                                   (filter (\<lambda>k. k \<notin> c) ks))
               \<and> fst (last cs) =
                   List.map_filter (\<lambda>k. request (choose_action state pf sf k) k)
                     (filter (\<lambda>k. k \<notin> c) ks) ! n))"
  using assms
proof (induction ks arbitrary: c w)
  case Nil
  show ?case by (simp add: map_filter_simps)
next
  case (Cons k ks)
  let ?req = "\<lambda>k. request (choose_action state pf sf k) k"
  let ?A = "\<lambda>cs. filter (\<lambda>x. action_key x \<noteq> None) (map fst cs)"
  let ?a = "choose_action state pf sf k"
  have d: "distinct ks" and n: "k \<notin> set ks"
    using Cons.prems(1) by simp_all
  have ak: "\<forall>k' \<in> set ks. \<forall>rq. ?req k' = Some rq \<longrightarrow> action_key rq \<noteq> None"
    using Cons.prems(2) by simp
  note ih = Cons.IH [OF d ak]
  show ?case
  proof (cases "k \<in> c \<or> ?req k = None")
    case True
    then have p: "process_key state pf sf k c w = (Inr c, w)"
      by (auto simp: process_key_def request_None perform_def)
    have f: "List.map_filter ?req (filter (\<lambda>k. k \<notin> c) (k # ks)) =
             List.map_filter ?req (filter (\<lambda>k. k \<notin> c) ks)"
      using True by (auto simp: map_filter_simps)
    show ?thesis
      unfolding f using ih [where c = c and w = w] by (simp add: p)
  next
    case False
    then obtain rq where kc: "k \<notin> c" and rq: "?req k = Some rq"
      by auto
    have an: "?a \<noteq> NO_ACTION"
      using rq request_None [of ?a k] by simp
    have ar: "action_key rq \<noteq> None"
      using Cons.prems(2) rq by simp
    let ?p = "perform ?a k w"
    have pc: "calls (snd ?p) = calls w @ [(rq, fst ?p)]"
      by (simp add: perform_calls rq)
    have f: "List.map_filter ?req (filter (\<lambda>k. k \<notin> c) (k # ks)) =
             rq # List.map_filter ?req (filter (\<lambda>k. k \<notin> c) ks)"
      using kc rq by (simp add: map_filter_simps)
    show ?thesis
    proof (cases "fst ?p")
      case (Some e)
      then have p: "process_key state pf sf k c w =
                      (Inl e, print_msg (ErrorProcessing k e) (snd ?p))"
        using kc by (simp add: process_key_def Let_def split_beta)
      have "calls (snd (sync_loop state pf sf (k # ks) c w)) = calls w @ [(rq, Some e)]"
        using pc Some by (simp add: p)
      moreover have "fst (sync_loop state pf sf (k # ks) c w) = Inl e"
        by (simp add: p)
      moreover have "\<exists>n < length (rq # List.map_filter ?req (filter (\<lambda>k. k \<notin> c) ks)).
          ?A [(rq, Some e)] = take (Suc n) (rq # List.map_filter ?req (filter (\<lambda>k. k \<notin> c) ks))
        \<and> fst (last [(rq, Some e)]) = (rq # List.map_filter ?req (filter (\<lambda>k. k \<notin> c) ks)) ! n"
        using ar by (intro exI [of _ 0]) simp
      ultimately show ?thesis
        unfolding f by (intro exI [of _ "[(rq, Some e)]"]) (simp del: sync_loop.simps)
    next
      case None
      let ?w' = "save_progress_log (insert k c) (snd ?p)"
      have p: "process_key state pf sf k c w = (Inr (insert k c), ?w')"
        using kc an None by (simp add: process_key_def Let_def split_beta)
      obtain r1 r2 where
        sc: "calls ?w' = calls w @ [(rq, None),
               (PutObject PRIMARY_BUCKET LOG_KEY (LogDoc (sorted_list_of_set (insert k c))), r1),
               (PutObject SECONDARY_BUCKET LOG_KEY (LogDoc (sorted_list_of_set (insert k c))), r2)]"
        using pc None by (simp add: save_progress_log_calls)
      have same: "filter (\<lambda>k'. k' \<notin> insert k c) ks = filter (\<lambda>k'. k' \<notin> c) ks"
        using n by (intro filter_cong) auto
      let ?rest = "sync_loop state pf sf ks (insert k c) ?w'"
      from ih [where c = "insert k c" and w = ?w'] obtain cs where
        cs: "calls (snd ?rest) = calls ?w' @ cs"
        and res: "(case fst ?rest of
           Inr c' \<Rightarrow> ?A cs = List.map_filter ?req (filter (\<lambda>k. k \<notin> c) ks)
         | Inl e \<Rightarrow>
             cs \<noteq> [] \<and> snd (last cs) = Some e
           \<and> (\<exists>n < length (List.map_filter ?req (filter (\<lambda>k. k \<notin> c) ks)).
                 ?A cs = take (Suc n) (List.map_filter ?req (filter (\<lambda>k. k \<notin> c) ks))
               \<and> fst (last cs) = List.map_filter ?req (filter (\<lambda>k. k \<notin> c) ks) ! n))"
        unfolding same by blast
      let ?pre = "[(rq, None),
               (PutObject PRIMARY_BUCKET LOG_KEY (LogDoc (sorted_list_of_set (insert k c))), r1),
               (PutObject SECONDARY_BUCKET LOG_KEY (LogDoc (sorted_list_of_set (insert k c))), r2)]"
      have e: "sync_loop state pf sf (k # ks) c w = ?rest"
        by (simp add: p)
      have c1: "calls (snd ?rest) = calls w @ (?pre @ cs)"
        using cs sc by simp
      have A: "?A (?pre @ cs) = rq # ?A cs"
        using ar by simp
      show ?thesis
      proof (cases "fst ?rest")
        case (Inr c')
        with res have "?A cs = List.map_filter ?req (filter (\<lambda>k. k \<notin> c) ks)" by simp
        with A have "?A (?pre @ cs) = rq # List.map_filter ?req (filter (\<lambda>k. k \<notin> c) ks)"
          by simp
        with c1 Inr show ?thesis
          unfolding e f by (intro exI [of _ "?pre @ cs"]) simp
      next
        case (Inl e')
        with res obtain m where ne: "cs \<noteq> []" and la: "snd (last cs) = Some e'"
          and m: "m < length (List.map_filter ?req (filter (\<lambda>k. k \<notin> c) ks))"
          and t: "?A cs = take (Suc m) (List.map_filter ?req (filter (\<lambda>k. k \<notin> c) ks))"
          and fl: "fst (last cs) = List.map_filter ?req (filter (\<lambda>k. k \<notin> c) ks) ! m"
          by auto
        have l: "last (?pre @ cs) = last cs" using ne by simp
        have "?pre @ cs \<noteq> [] \<and> snd (last (?pre @ cs)) = Some e'
           \<and> Suc m < length (rq # List.map_filter ?req (filter (\<lambda>k. k \<notin> c) ks))
           \<and> ?A (?pre @ cs) = take (Suc (Suc m)) (rq # List.map_filter ?req (filter (\<lambda>k. k \<notin> c) ks))
           \<and> fst (last (?pre @ cs)) = (rq # List.map_filter ?req (filter (\<lambda>k. k \<notin> c) ks)) ! Suc m"
          unfolding l A using la m t fl by simp
        then have "?pre @ cs \<noteq> [] \<and> snd (last (?pre @ cs)) = Some e'
           \<and> (\<exists>n < length (rq # List.map_filter ?req (filter (\<lambda>k. k \<notin> c) ks)).
             ?A (?pre @ cs) = take (Suc n) (rq # List.map_filter ?req (filter (\<lambda>k. k \<notin> c) ks))
           \<and> fst (last (?pre @ cs)) = (rq # List.map_filter ?req (filter (\<lambda>k. k \<notin> c) ks)) ! n)"
          by blast
        with c1 Inl show ?thesis
          unfolding e f by (intro exI [of _ "?pre @ cs"]) simp
      qed
    qed
  qed
qed

lemma action_key_of_request:
  "request a k = Some rq \<Longrightarrow> k \<noteq> LOG_KEY \<Longrightarrow> action_key rq = Some k"
  by (cases a) (auto simp: request_def action_key_def)

lemma no_actions:
  "list_all (\<lambda>c. action_key (fst c) = None) cs \<Longrightarrow>
   filter (\<lambda>x. action_key x \<noteq> None) (map fst cs) = []"
  by (simp add: filter_empty_conv list_all_iff)

lemma run_from_actions:
  assumes di: "discover state completed w = ((pf, sf, ks), w5)"
  shows "ks = all_keys state pf sf
     \<and> (fst (run_from state completed w) = Inr () \<longrightarrow>
          actions_of w (snd (run_from state completed w)) = planned state pf sf completed)
     \<and> (\<forall>e. fst (run_from state completed w) = Inl e \<longrightarrow>
          (\<exists>n < length (planned state pf sf completed).
              actions_of w (snd (run_from state completed w)) =
                take (Suc n) (planned state pf sf completed)
            \<and> last (calls (snd (run_from state completed w))) =
                (planned state pf sf completed ! n, Some e)))"
proof -
  let ?N = "\<lambda>c. action_key c = None"
  let ?A = "\<lambda>cs. filter (\<lambda>x. action_key x \<noteq> None) (map fst cs)"
  let ?req = "\<lambda>k. request (choose_action state pf sf k) k"
  have ks: "ks = all_keys state pf sf"
    using discover_keys [of state completed w] di by simp
  have pl: "planned state pf sf completed =
            List.map_filter ?req (filter (\<lambda>k. k \<notin> completed) ks)"
    by (simp add: planned_def ks)
  have "calls_extend ?N w (snd (discover state completed w))"
    by (rule discover_extend) simp
  then obtain ds where ds: "calls w5 = calls w @ ds" "list_all (\<lambda>c. ?N (fst c)) ds"
    using di by (auto simp: calls_extend_def)
  have no_log: "LOG_KEY \<notin> fst ` set pf \<union> fst ` set sf"
    using discover_listings [of state completed w] di by simp
  have ak: "\<forall>k \<in> set ks. \<forall>rq. ?req k = Some rq \<longrightarrow> action_key rq \<noteq> None"
  proof (intro ballI allI impI)
    fix k rq
    assume rq: "?req k = Some rq"
    then have "choose_action state pf sf k \<noteq> NO_ACTION"
      by (auto simp: request_def)
    then have "k \<in> fst ` set pf \<union> fst ` set sf"
      by (rule choose_action_listed)
    with no_log have "k \<noteq> LOG_KEY" by blast
    with rq have "action_key rq = Some k" by (rule action_key_of_request)
    then show "action_key rq \<noteq> None" by simp
  qed
  have dist: "distinct ks"
    by (simp add: ks all_keys_def)
  let ?l = "sync_loop state pf sf ks completed w5"
  from sync_loop_trace [OF dist ak, of completed w5] obtain cs where
    cs: "calls (snd ?l) = calls w5 @ cs"
    and res: "(case fst ?l of
           Inr c' \<Rightarrow> ?A cs = List.map_filter ?req (filter (\<lambda>k. k \<notin> completed) ks)
         | Inl e \<Rightarrow>
             cs \<noteq> [] \<and> snd (last cs) = Some e
           \<and> (\<exists>n < length (List.map_filter ?req (filter (\<lambda>k. k \<notin> completed) ks)).
                 ?A cs = take (Suc n) (List.map_filter ?req (filter (\<lambda>k. k \<notin> completed) ks))
               \<and> fst (last cs) = List.map_filter ?req (filter (\<lambda>k. k \<notin> completed) ks) ! n))"
    by blast
  have r: "run_from state completed w =
        (case ?l of (Inl e, w6) \<Rightarrow> (Inl e, w6) | (Inr c', w6) \<Rightarrow> (Inr (), finish state w6))"
    by (simp add: run_from_def di)
  have nd: "?A ds = []"
    using ds(2) by (rule no_actions)
  show ?thesis
  proof (cases "fst ?l")
    case (Inl e)
    then have e: "run_from state completed w = (Inl e, snd ?l)"
      by (simp add: r split_beta)
    from Inl res obtain n where ne: "cs \<noteq> []" and la: "snd (last cs) = Some e"
      and n: "n < length (planned state pf sf completed)"
      and t: "?A cs = take (Suc n) (planned state pf sf completed)"
      and fl: "fst (last cs) = planned state pf sf completed ! n"
      unfolding pl by auto
    have nc: "new_calls w (snd ?l) = ds @ cs"
      by (simp add: new_calls_def cs ds(1))
    have a: "actions_of w (snd ?l) = take (Suc n) (planned state pf sf completed)"
      unfolding actions_of_def nc using nd t by simp
    have "last (calls (snd ?l)) = last cs"
      using ne by (simp add: cs)
    also have "\<dots> = (planned state pf sf completed ! n, Some e)"
      using la fl by (simp add: prod_eq_iff)
    finally have l: "last (calls (snd ?l)) = (planned state pf sf completed ! n, Some e)" .
    show ?thesis
      using ks n a l by (auto simp: e)
  next
    case (Inr c')
    then have e: "run_from state completed w = (Inr (), finish state (snd ?l))"
      by (simp add: r split_beta)
    from Inr res have t: "?A cs = planned state pf sf completed"
      unfolding pl by simp
    from finish_calls [of ?N state "snd ?l"] obtain fs r1 r2 where
      fs: "calls (finish state (snd ?l)) =
             calls (snd ?l) @ fs @ [(DeleteObject PRIMARY_BUCKET LOG_KEY, r1),
                                    (DeleteObject SECONDARY_BUCKET LOG_KEY, r2)]"
      and nf: "list_all (\<lambda>c. ?N (fst c)) fs"
      by auto
    have nc: "new_calls w (finish state (snd ?l)) =
                ds @ cs @ fs @ [(DeleteObject PRIMARY_BUCKET LOG_KEY, r1),
                                (DeleteObject SECONDARY_BUCKET LOG_KEY, r2)]"
      by (simp add: new_calls_def fs cs ds(1))
    have "?A fs = []"
      using nf by (rule no_actions)
    then have "actions_of w (finish state (snd ?l)) = planned state pf sf completed"
      unfolding actions_of_def nc using nd t by simp
    then show ?thesis
      using ks by (simp add: e)
  qed
qed

text \<open>
  C9. The keys the loop walks are exactly those of the primary listing, of the secondary
  listing and of the state's files, in ascending string order, each once. The turn for
  a key that is already in the completed set changes nothing: no request is made,
  nothing is printed, the completed set stays as it is, and the loop goes on with the
  remaining keys. And the loop does walk them: the copies and deletes a run requests
  are the requests of the branches taken for the keys of that sorted list that are not
  in the completed set, one for each such key whose branch is not none, in that order;
  all of them when no action fails, and, when one fails, those up to it, the failed
  request being the last request of the run.
\<close>

theorem C9_keys_walked:
  "set (all_keys state pf sf) = fst ` set pf \<union> fst ` set sf \<union> fst ` set (files state)
   \<and> sorted (all_keys state pf sf) \<and> distinct (all_keys state pf sf)
   \<and> (\<forall>k \<in> completed.
          process_key state pf sf k completed w = (Inr completed, w)
        \<and> sync_loop state pf sf (k # ks) completed w = sync_loop state pf sf ks completed w)
   \<and> (fst (run_from state completed w) = Inr () \<longrightarrow>
          actions_of w (snd (run_from state completed w)) = run_plan state completed w)
   \<and> (\<forall>e. fst (run_from state completed w) = Inl e \<longrightarrow>
          (\<exists>n < length (run_plan state completed w).
              actions_of w (snd (run_from state completed w)) =
                take (Suc n) (run_plan state completed w)
            \<and> last (calls (snd (run_from state completed w))) =
                (run_plan state completed w ! n, Some e)))"
proof -
  obtain pf' sf' ks' w5 where di: "discover state completed w = ((pf', sf', ks'), w5)"
    by (metis prod.exhaust)
  have rp: "run_plan state completed w = planned state pf' sf' completed"
    by (simp add: run_plan_def di)
  have keys: "set (all_keys state pf sf) = fst ` set pf \<union> fst ` set sf \<union> fst ` set (files state)
      \<and> sorted (all_keys state pf sf) \<and> distinct (all_keys state pf sf)"
    by (simp add: all_keys_def)
  have skip: "\<forall>k \<in> completed.
          process_key state pf sf k completed w = (Inr completed, w)
        \<and> sync_loop state pf sf (k # ks) completed w = sync_loop state pf sf ks completed w"
    by (simp add: process_key_completed)
  from run_from_actions [OF di] keys skip show ?thesis
    unfolding rp by blast
qed

theorem C9_keys_walked_witness:
  "all_keys ex_state [(''c'', ''t1'')] [(''b'', ''t1''), (''c'', ''t1'')] = [''a'', ''b'', ''c'']
   \<and> process_key ex_state [(''a'', ''t1'')] [] ''a'' {''a''} ex_world = (Inr {''a''}, ex_world)
   \<and> fst (run_from ex_state {} ex_world_two) = Inr ()
   \<and> actions_of ex_world_two (snd (run_from ex_state {} ex_world_two)) =
       [DeleteObject PRIMARY_BUCKET ''a'', CopyObject PRIMARY_BUCKET ''b'' SECONDARY_BUCKET ''b'']
   \<and> fst (run_from ex_state {''a''} ex_world_two) = Inr ()
   \<and> actions_of ex_world_two (snd (run_from ex_state {''a''} ex_world_two)) =
       [CopyObject PRIMARY_BUCKET ''b'' SECONDARY_BUCKET ''b'']
   \<and> fst (run_from ex_state {} (ex_world_two\<lparr>faults := [None, None, Some ''SlowDown'']\<rparr>)) =
       Inl ''SlowDown''
   \<and> (\<exists>n < length [DeleteObject PRIMARY_BUCKET ''a'',
                        CopyObject PRIMARY_BUCKET ''b'' SECONDARY_BUCKET ''b''].
         actions_of (ex_world_two\<lparr>faults := [None, None, Some ''SlowDown'']\<rparr>)
           (snd (run_from ex_state {} (ex_world_two\<lparr>faults := [None, None, Some ''SlowDown'']\<rparr>))) =
           take (Suc n)
             [DeleteObject PRIMARY_BUCKET ''a'',
              CopyObject PRIMARY_BUCKET ''b'' SECONDARY_BUCKET ''b'']
       \<and> last (calls (snd (run_from ex_state {}
                  (ex_world_two\<lparr>faults := [None, None, Some ''SlowDown'']\<rparr>)))) =
           ([DeleteObject PRIMARY_BUCKET ''a'',
             CopyObject PRIMARY_BUCKET ''b'' SECONDARY_BUCKET ''b''] ! n, Some ''SlowDown''))"
proof -
  let ?f = "ex_world_two\<lparr>faults := [None, None, Some ''SlowDown'']\<rparr>"
  let ?plan = "[DeleteObject PRIMARY_BUCKET ''a'',
                CopyObject PRIMARY_BUCKET ''b'' SECONDARY_BUCKET ''b'']"
  have k: "all_keys ex_state [(''c'', ''t1'')] [(''b'', ''t1''), (''c'', ''t1'')] = [''a'', ''b'', ''c'']"
    by code_simp
  have a: "''a'' \<in> {''a''}"
    by simp
  have r1: "fst (run_from ex_state {} ex_world_two) = Inr ()"
    and r2: "fst (run_from ex_state {''a''} ex_world_two) = Inr ()"
    and r3: "fst (run_from ex_state {} ?f) = Inl ''SlowDown''"
    by code_simp+
  have p1: "run_plan ex_state {} ex_world_two = ?plan"
    and p2: "run_plan ex_state {''a''} ex_world_two =
               [CopyObject PRIMARY_BUCKET ''b'' SECONDARY_BUCKET ''b'']"
    and p3: "run_plan ex_state {} ?f = ?plan"
    by code_simp+
  from C9_keys_walked [of ex_state "[(''a'', ''t1'')]" "[]" "{''a''}" ex_world "[]"] a
  have 0: "process_key ex_state [(''a'', ''t1'')] [] ''a'' {''a''} ex_world = (Inr {''a''}, ex_world)"
    by blast
  from C9_keys_walked [of ex_state "[]" "[]" "{}" ex_world_two "[]"] r1
  have 1: "actions_of ex_world_two (snd (run_from ex_state {} ex_world_two)) = ?plan"
    unfolding p1 by blast
  from C9_keys_walked [of ex_state "[]" "[]" "{''a''}" ex_world_two "[]"] r2
  have 2: "actions_of ex_world_two (snd (run_from ex_state {''a''} ex_world_two)) =
             [CopyObject PRIMARY_BUCKET ''b'' SECONDARY_BUCKET ''b'']"
    unfolding p2 by blast
  from C9_keys_walked [of ex_state "[]" "[]" "{}" ?f "[]"] r3
  have 3: "\<exists>n < length ?plan.
          actions_of ?f (snd (run_from ex_state {} ?f)) = take (Suc n) ?plan
        \<and> last (calls (snd (run_from ex_state {} ?f))) = (?plan ! n, Some ''SlowDown'')"
    unfolding p3 by blast
  from k 0 r1 1 r2 2 r3 3 show ?thesis
    by blast
qed

subsection \<open>Resuming an interrupted run\<close>

text \<open>What each step of a run leaves of the buckets, when no request fails.\<close>

lemma next_fault_quiet [simp]: "faults w = [] \<Longrightarrow> next_fault w = None"
  by (simp add: next_fault_def)

lemma load_state_loop_frame:
  "bucket (snd (load_state_loop bs st w)) b = bucket w b"
  "faults w = [] \<Longrightarrow> faults (snd (load_state_loop bs st w)) = []"
proof (induction bs arbitrary: st w)
  case Nil
  { case 1 show ?case by simp }
  { case 2 then show ?case by simp }
next
  case (Cons b' bs)
  { case 1
    show ?case
      by (simp add: split_beta Cons.IH(1) split: sum.split option.split json.split) }
  { case 2
    then show ?case
      by (simp add: split_beta Cons.IH(2) split: sum.split option.split json.split) }
qed

lemma load_state_frame:
  "bucket (snd (load_state w)) b = bucket w b"
  "faults w = [] \<Longrightarrow> faults (snd (load_state w)) = []"
  by (simp_all add: load_state_def now_eq split_beta load_state_loop_frame
      del: load_state_loop.simps split: sum.split option.split)

lemma load_progress_log_frame:
  "bucket (snd (load_progress_log w)) b = bucket w b"
  "faults w = [] \<Longrightarrow> faults (snd (load_progress_log w)) = []"
  by (simp_all add: load_progress_log_def split_beta split: sum.split option.split)

lemma list_pages_frame:
  "bucket (snd (list_pages b' pages result w)) b = bucket w b"
  "faults w = [] \<Longrightarrow> faults (snd (list_pages b' pages result w)) = []"
proof (induction pages arbitrary: result w)
  case Nil
  { case 1 show ?case by simp }
  { case 2 then show ?case by simp }
next
  case (Cons page pages)
  { case 1
    show ?case
      by (simp add: take_fault_eq record_call_def Cons.IH(1) split: option.split) }
  { case 2
    then show ?case
      by (simp add: take_fault_eq record_call_def Cons.IH(2) split: option.split) }
qed

lemma list_bucket_objects_frame:
  "bucket (snd (list_bucket_objects b' w)) b = bucket w b"
  "faults w = [] \<Longrightarrow> faults (snd (list_bucket_objects b' w)) = []"
  by (simp_all add: list_bucket_objects_def list_pages_frame)

lemma discover_frame:
  "bucket (snd (discover state prior w)) b = bucket w b"
  "faults w = [] \<Longrightarrow> faults (snd (discover state prior w)) = []"
  by (simp_all add: discover_def Let_def split_beta list_bucket_objects_frame)

lemma rebuild_loop_frame:
  "bucket (snd (rebuild_loop pf sf ks fs w)) b = bucket w b"
  "faults (snd (rebuild_loop pf sf ks fs w)) = faults w"
  by (induction ks arbitrary: fs w) (simp_all add: rebuild_entry_eq)

lemma rebuild_files_state_frame:
  "bucket (snd (rebuild_files_state pf sf w)) b = bucket w b"
  "faults (snd (rebuild_files_state pf sf w)) = faults w"
  by (simp_all add: rebuild_files_state_def rebuild_loop_frame)

lemma add_page_append: "add_page (xs @ ys) result = add_page ys (add_page xs result)"
  by (induction xs arbitrary: result) auto

lemma concat_pages_of: "concat (pages_of xs) = xs"
proof (induction xs rule: pages_of.induct)
  case (1 xs)
  show ?case
  proof (cases "length xs \<le> 1000")
    case True
    then show ?thesis by (simp add: pages_of.simps [of xs])
  next
    case False
    then show ?thesis using 1 by (simp add: pages_of.simps [of xs])
  qed
qed

lemma list_pages_quiet:
  "faults w = [] \<Longrightarrow> fst (list_pages b pages result w) = add_page (concat pages) result"
proof (induction pages arbitrary: result w)
  case Nil
  show ?case by simp
next
  case (Cons page pages)
  have "faults (record_call (ListObjectsV2 b) None (w\<lparr>faults := tl (faults w)\<rparr>)) = []"
    using Cons.prems by (simp add: record_call_def)
  from Cons.IH [OF this] show ?case
    using Cons.prems by (simp add: take_fault_eq add_page_append)
qed

lemma list_bucket_objects_quiet:
  "faults w = [] \<Longrightarrow> fst (list_bucket_objects b w) = add_page (bucket w b) []"
  by (simp add: list_bucket_objects_def list_pages_quiet concat_pages_of)

lemma map_of_add_page:
  "distinct (map fst xs) \<Longrightarrow>
   map_of (add_page xs result) k =
     (if k \<in> {STATE_KEY, LOG_KEY} then map_of result k
      else case map_of xs k of None \<Rightarrow> map_of result k | Some obj \<Rightarrow> Some (LastModified obj))"
proof (induction xs arbitrary: result)
  case Nil
  show ?case by simp
next
  case (Cons x xs)
  obtain k' obj where x: "x = (k', obj)" by (cases x)
  have d: "distinct (map fst xs)" and n: "k' \<notin> fst ` set xs"
    using Cons.prems by (auto simp: x)
  have m: "map_of xs k' = None"
    using n by (simp add: map_of_eq_None_iff)
  show ?case
    using Cons.IH [OF d] m by (auto simp: x update_conv' split: option.split)
qed

lemma keys_add_page:
  "fst ` set (add_page xs result) = fst ` set result \<union> (fst ` set xs - {STATE_KEY, LOG_KEY})"
proof (induction xs arbitrary: result)
  case Nil
  show ?case by simp
next
  case (Cons x xs)
  obtain k' obj where x: "x = (k', obj)" by (cases x)
  show ?case
    by (auto simp: x Cons.IH dom_update)
qed

lemma listing_quiet:
  assumes "faults w = []"
  shows "fst ` set (fst (list_bucket_objects b w)) = fst ` set (bucket w b) - {STATE_KEY, LOG_KEY}"
    and "distinct (map fst (bucket w b)) \<Longrightarrow>
         map_of (fst (list_bucket_objects b w)) k =
           (if k \<in> {STATE_KEY, LOG_KEY} then None
            else map_option LastModified (map_of (bucket w b) k))"
  using assms
  by (simp_all add: list_bucket_objects_quiet keys_add_page map_of_add_page
      split: option.split)

lemma put_object_lookup:
  "faults w = [] \<Longrightarrow>
   map_of (bucket (snd (put_object b k d w)) b') k' =
     (if b' = b \<and> k' = k then Some \<lparr>LastModified = clock w (tick w), Body = d\<rparr>
      else map_of (bucket w b') k')"
  by (simp add: update_conv')

lemma put_object_other:
  "k' \<noteq> k \<Longrightarrow> map_of (bucket (snd (put_object b k d w)) b') k' = map_of (bucket w b') k'"
  by (simp add: update_conv')

lemma delete_object_lookup:
  "faults w = [] \<Longrightarrow>
   map_of (bucket (snd (delete_object b k w)) b') k' =
     (if b' = b \<and> k' = k then None else map_of (bucket w b') k')"
  by (simp add: delete_conv')

lemma delete_object_other:
  "k' \<noteq> k \<Longrightarrow> map_of (bucket (snd (delete_object b k w)) b') k' = map_of (bucket w b') k'"
  by (simp add: delete_conv')

lemma copy_lookup:
  "faults w = [] \<Longrightarrow>
   map_of (bucket (snd (copy src k dst k w)) b') k' =
     (case map_of (bucket w src) k of
        None \<Rightarrow> map_of (bucket w b') k'
      | Some obj \<Rightarrow>
          if b' = dst \<and> k' = k then Some \<lparr>LastModified = clock w (tick w), Body = Body obj\<rparr>
          else map_of (bucket w b') k')"
  by (simp add: update_conv' split: option.split)

lemma copy_other:
  "k' \<noteq> k \<Longrightarrow> map_of (bucket (snd (copy src k0 dst k w)) b') k' = map_of (bucket w b') k'"
  by (simp add: update_conv' split: option.split)

lemma put_object_distinct:
  "distinct (map fst (bucket w b')) \<Longrightarrow> distinct (map fst (bucket (snd (put_object b k d w)) b'))"
  by (auto simp: distinct_update)

lemma delete_object_distinct:
  "distinct (map fst (bucket w b')) \<Longrightarrow> distinct (map fst (bucket (snd (delete_object b k w)) b'))"
  by (auto simp: distinct_delete)

lemma copy_distinct:
  "distinct (map fst (bucket w b')) \<Longrightarrow> distinct (map fst (bucket (snd (copy src k dst k1 w)) b'))"
  by (auto simp: distinct_update split: option.split)

lemma save_log_loop_other:
  "k' \<noteq> LOG_KEY \<Longrightarrow> map_of (bucket (save_log_loop bs d w) b') k' = map_of (bucket w b') k'"
proof (induction bs arbitrary: w)
  case Nil
  show ?case by simp
next
  case (Cons b bs)
  then show ?case
    by (simp add: split_beta put_object_other del: put_object_fields split: option.split)
qed

lemma save_log_loop_quiet:
  "faults w = [] \<Longrightarrow> faults (save_log_loop bs d w) = []"
proof (induction bs arbitrary: w)
  case Nil
  then show ?case by simp
next
  case (Cons b bs)
  then show ?case
    by (simp add: split_beta split: option.split)
qed

lemma save_log_loop_distinct:
  "distinct (map fst (bucket w b')) \<Longrightarrow> distinct (map fst (bucket (save_log_loop bs d w) b'))"
proof (induction bs arbitrary: w)
  case Nil
  then show ?case by simp
next
  case (Cons b bs)
  have 1: "distinct (map fst (bucket (snd (put_object b LOG_KEY d w)) b'))"
    using Cons.prems by (rule put_object_distinct)
  then have 2: "distinct (map fst (bucket (print_msg m (snd (put_object b LOG_KEY d w))) b'))" for m
    by simp
  show ?case
    using Cons.IH [OF 1] Cons.IH [OF 2]
    by (simp add: split_beta del: put_object_fields split: option.split)
qed

lemmas save_log_loop_frame = save_log_loop_other save_log_loop_quiet save_log_loop_distinct

lemma save_progress_log_frame:
  "k' \<noteq> LOG_KEY \<Longrightarrow> map_of (bucket (save_progress_log S w) b') k' = map_of (bucket w b') k'"
  "faults w = [] \<Longrightarrow> faults (save_progress_log S w) = []"
  "distinct (map fst (bucket w b')) \<Longrightarrow> distinct (map fst (bucket (save_progress_log S w) b'))"
  by (simp_all add: save_progress_log_def save_log_loop_frame del: save_log_loop.simps)

lemma perform_other:
  "k' \<noteq> k \<Longrightarrow> map_of (bucket (snd (perform a k w)) b') k' = map_of (bucket w b') k'"
  by (cases a)
     (simp_all add: perform_def copy_other delete_object_other
        del: copy_fields delete_object_fields)

lemma perform_quiet:
  "faults w = [] \<Longrightarrow> faults (snd (perform a k w)) = []"
  by (cases a) (simp_all add: perform_def)

lemma perform_distinct:
  "distinct (map fst (bucket w b')) \<Longrightarrow> distinct (map fst (bucket (snd (perform a k w)) b'))"
  by (cases a)
     (simp_all add: perform_def copy_distinct delete_object_distinct
        del: copy_fields delete_object_fields)

lemmas perform_frame = perform_other perform_quiet perform_distinct

lemma process_key_idle:
  "\<not> acts state pf sf c k \<Longrightarrow> process_key state pf sf k c w = (Inr c, w)"
  by (auto simp: acts_def process_key_def perform_def)

lemma process_key_cases:
  "process_key state pf sf k c w = (Inr c, w)
   \<or> (\<exists>e. process_key state pf sf k c w =
            (Inl e, print_msg (ErrorProcessing k e) (snd (perform (choose_action state pf sf k) k w))))
   \<or> process_key state pf sf k c w =
       (Inr (insert k c),
        save_progress_log (insert k c) (snd (perform (choose_action state pf sf k) k w)))"
  by (cases "fst (perform (choose_action state pf sf k) k w)")
     (auto simp: process_key_def Let_def split_beta perform_def)

lemma process_key_other:
  "k' \<noteq> k \<Longrightarrow> k' \<noteq> LOG_KEY \<Longrightarrow>
   map_of (bucket (snd (process_key state pf sf k c w)) b') k' = map_of (bucket w b') k'"
  using process_key_cases [of state pf sf k c w]
  by (auto simp: perform_other save_progress_log_frame(1))

lemma process_key_quiet:
  "faults w = [] \<Longrightarrow> faults (snd (process_key state pf sf k c w)) = []"
  using process_key_cases [of state pf sf k c w]
  by (auto simp: perform_quiet save_progress_log_frame(2))

lemma process_key_distinct:
  "distinct (map fst (bucket w b')) \<Longrightarrow>
   distinct (map fst (bucket (snd (process_key state pf sf k c w)) b'))"
  using process_key_cases [of state pf sf k c w]
  by (auto simp: perform_distinct save_progress_log_frame(3))

lemmas process_key_frame = process_key_other process_key_quiet process_key_distinct

lemma sync_loop_other:
  "k' \<notin> set ks \<Longrightarrow> k' \<noteq> LOG_KEY \<Longrightarrow>
   map_of (bucket (snd (sync_loop state pf sf ks c w)) b') k' = map_of (bucket w b') k'"
proof (induction ks arbitrary: c w)
  case Nil
  show ?case by simp
next
  case (Cons k ks)
  then show ?case
    by (simp add: split_beta process_key_other split: sum.split)
qed

lemma sync_loop_quiet:
  "faults w = [] \<Longrightarrow> faults (snd (sync_loop state pf sf ks c w)) = []"
proof (induction ks arbitrary: c w)
  case Nil
  then show ?case by simp
next
  case (Cons k ks)
  then show ?case
    by (simp add: split_beta process_key_quiet split: sum.split)
qed

lemma sync_loop_distinct:
  "distinct (map fst (bucket w b')) \<Longrightarrow>
   distinct (map fst (bucket (snd (sync_loop state pf sf ks c w)) b'))"
proof (induction ks arbitrary: c w)
  case Nil
  then show ?case by simp
next
  case (Cons k ks)
  then show ?case
    by (simp add: split_beta process_key_distinct split: sum.split)
qed

lemma sync_loop_filter:
  "distinct ks \<Longrightarrow>
   sync_loop state pf sf ks c w = sync_loop state pf sf (filter (acts state pf sf c) ks) c w"
proof (induction ks arbitrary: c w)
  case Nil
  show ?case by simp
next
  case (Cons k ks)
  have d: "distinct ks" and n: "k \<notin> set ks"
    using Cons.prems by simp_all
  show ?case
  proof (cases "acts state pf sf c k")
    case False
    then show ?thesis
      using Cons.IH [OF d, of c w] by (simp add: process_key_idle)
  next
    case True
    have same: "filter (acts state pf sf c') ks = filter (acts state pf sf c) ks"
      if "fst (process_key state pf sf k c w) = Inr c'" for c'
    proof (rule filter_cong [OF refl])
      fix x assume x: "x \<in> set ks"
      from that have "c' = c \<or> c' = insert k c"
        by (auto simp: process_key_def Let_def split_beta split: if_splits option.splits)
      with x n show "acts state pf sf c' x = acts state pf sf c x"
        by (auto simp: acts_def)
    qed
    show ?thesis
      using True Cons.IH [OF d] same
      by (auto simp: split_beta split: sum.split)
  qed
qed

lemma sync_loop_append:
  "sync_loop state pf sf (xs @ ys) c w =
     (case sync_loop state pf sf xs c w of
        (Inl e, w') \<Rightarrow> (Inl e, w')
      | (Inr c', w') \<Rightarrow> sync_loop state pf sf ys c' w')"
  by (induction xs arbitrary: c w) (simp_all add: split_beta split: sum.split)

lemma process_key_result:
  "fst (process_key state pf sf k c w) = Inr c' \<Longrightarrow>
   (c' = c \<and> \<not> acts state pf sf c k \<and> snd (process_key state pf sf k c w) = w)
   \<or> (c' = insert k c \<and> acts state pf sf c k
       \<and> fst (perform (choose_action state pf sf k) k w) = None
       \<and> snd (process_key state pf sf k c w) =
           save_progress_log (insert k c) (snd (perform (choose_action state pf sf k) k w)))"
  by (cases "acts state pf sf c k")
     (auto simp: process_key_idle, auto simp: acts_def process_key_def Let_def split_beta
        split: option.splits if_splits)

lemma acts_insert: "x \<noteq> k \<Longrightarrow> acts state pf sf (insert k c) x = acts state pf sf c x"
  by (simp add: acts_def)

lemma sync_loop_completed:
  "distinct ks \<Longrightarrow> fst (sync_loop state pf sf ks c w) = Inr c' \<Longrightarrow>
   c' = c \<union> set (filter (acts state pf sf c) ks)"
proof (induction ks arbitrary: c w)
  case Nil
  then show ?case by simp
next
  case (Cons k ks)
  let ?r = "process_key state pf sf k c w"
  from Cons.prems(2) obtain c1 where c1: "fst ?r = Inr c1"
    by (cases "fst ?r") (simp_all add: split_beta)
  with Cons.prems(2) have rest: "fst (sync_loop state pf sf ks c1 (snd ?r)) = Inr c'"
    by (simp add: split_beta)
  have d: "distinct ks" and n: "k \<notin> set ks" using Cons.prems(1) by simp_all
  have ih: "c' = c1 \<union> set (filter (acts state pf sf c1) ks)"
    using d rest by (rule Cons.IH)
  from process_key_result [OF c1] show ?case
  proof (elim disjE conjE)
    assume "c1 = c" "\<not> acts state pf sf c k"
    with ih show ?thesis by simp
  next
    assume a: "c1 = insert k c" "acts state pf sf c k"
    have "filter (acts state pf sf (insert k c)) ks = filter (acts state pf sf c) ks"
    proof (rule filter_cong [OF refl])
      fix x assume "x \<in> set ks"
      with n have "x \<noteq> k" by auto
      then show "acts state pf sf (insert k c) x = acts state pf sf c x"
        by (rule acts_insert)
    qed
    with ih a show ?thesis by auto
  qed
qed

lemma sync_loop_log:
  "faults w = [] \<Longrightarrow> fst (sync_loop state pf sf ks c w) = Inr c' \<Longrightarrow>
   (c' = c \<longrightarrow> (\<forall>b. bucket (snd (sync_loop state pf sf ks c w)) b = bucket w b))
   \<and> (c' \<noteq> c \<longrightarrow> (\<forall>b. body_at (snd (sync_loop state pf sf ks c w)) b LOG_KEY =
                          Some (LogDoc (sorted_list_of_set c'))))"
proof (induction ks arbitrary: c w)
  case Nil
  then show ?case by simp
next
  case (Cons k ks)
  let ?r = "process_key state pf sf k c w"
  let ?l = "sync_loop state pf sf ks"
  from Cons.prems(2) obtain c1 where c1: "fst ?r = Inr c1"
    by (cases "fst ?r") (simp_all add: split_beta)
  with Cons.prems(2) have rest: "fst (?l c1 (snd ?r)) = Inr c'"
    by (simp add: split_beta)
  have e: "snd (sync_loop state pf sf (k # ks) c w) = snd (?l c1 (snd ?r))"
    using c1 by (simp add: split_beta)
  have q: "faults (snd ?r) = []"
    using Cons.prems(1) by (rule process_key_quiet)
  note ih = Cons.IH [OF q rest]
  have sub: "c1 \<subseteq> c'" using rest by (rule sync_loop_mono)
  from process_key_result [OF c1] show ?case
  proof (elim disjE conjE)
    assume "c1 = c" and "snd ?r = w"
    with ih show ?thesis unfolding e by simp
  next
    assume a: "c1 = insert k c" "acts state pf sf c k"
       and p: "fst (perform (choose_action state pf sf k) k w) = None"
       and s: "snd ?r = save_progress_log (insert k c) (snd (perform (choose_action state pf sf k) k w))"
    have ne: "c' \<noteq> c" using a sub by (auto simp: acts_def)
    have qp: "faults (snd (perform (choose_action state pf sf k) k w)) = []"
      using Cons.prems(1) by (rule perform_quiet)
    have st: "body_at (snd ?r) b LOG_KEY = Some (LogDoc (sorted_list_of_set c1))" for b
      unfolding s a(1) body_at_def
      by (rule save_progress_log_stored) (simp_all add: qp)
    have "body_at (snd (?l c1 (snd ?r))) b LOG_KEY = Some (LogDoc (sorted_list_of_set c'))" for b
    proof (cases "c' = c1")
      case True
      with ih have "bucket (snd (?l c1 (snd ?r))) b = bucket (snd ?r) b" by simp
      then show ?thesis using st [of b] True by (simp add: body_at_def)
    next
      case False
      with ih show ?thesis by simp
    qed
    with ne show ?thesis unfolding e by simp
  qed
qed

lemma load_state_loop_cong:
  "faults w = [] \<Longrightarrow> faults w' = [] \<Longrightarrow>
   (\<And>b. map_of (bucket w b) STATE_KEY = map_of (bucket w' b) STATE_KEY) \<Longrightarrow>
   fst (load_state_loop bs st w) = fst (load_state_loop bs st w')"
proof (induction bs arbitrary: st w w')
  case Nil
  show ?case by simp
next
  case (Cons b bs)
  let ?g = "get_object b STATE_KEY w" and ?g' = "get_object b STATE_KEY w'"
  have f: "fst ?g = fst ?g'"
    using Cons.prems by (simp add: get_object_fst)
  have q: "faults (snd ?g) = []" "faults (snd ?g') = []"
    using Cons.prems(1,2) by simp_all
  have b: "map_of (bucket (snd ?g) b') STATE_KEY = map_of (bucket (snd ?g') b') STATE_KEY" for b'
    using Cons.prems(3) by simp
  have ih: "fst (load_state_loop bs st' (snd ?g)) = fst (load_state_loop bs st' (snd ?g'))" for st'
    using q b by (rule Cons.IH)
  show ?case
    by (simp add: split_beta f ih split: sum.split option.split json.split)
qed

lemma load_state_cong:
  assumes "faults w = []" "faults w' = []"
    and "\<And>b. map_of (bucket w b) STATE_KEY = map_of (bucket w' b) STATE_KEY"
    and "fst (load_state w) = Inr (JObject s)"
  shows "\<exists>s'. fst (load_state w') = Inr (JObject s') \<and> files s' = files s"
proof -
  have "fst (load_state_loop [PRIMARY_BUCKET, SECONDARY_BUCKET] None w) =
        fst (load_state_loop [PRIMARY_BUCKET, SECONDARY_BUCKET] None w')"
    using assms(1-3) by (rule load_state_loop_cong)
  then show ?thesis
    using assms(4)
    by (auto simp: load_state_def now_eq split_beta simp del: load_state_loop.simps
        split: sum.splits option.splits)
qed

lemma load_progress_log_quiet:
  "faults w = [] \<Longrightarrow>
   fst (load_progress_log w) =
     (case body_at w PRIMARY_BUCKET LOG_KEY of
        None \<Rightarrow> Inr {}
      | Some d \<Rightarrow> (case decode_log d of None \<Rightarrow> Inl DecodeError | Some ks \<Rightarrow> Inr (set ks)))"
  by (simp add: load_progress_log_def get_object_fst split_beta body_at_def
      split: option.split sum.split)

lemma load_progress_log_finite: "fst (load_progress_log w) = Inr p \<Longrightarrow> finite p"
  by (auto simp: load_progress_log_def split_beta split: option.splits sum.splits if_splits)

lemma choose_action_cong:
  "files st = files st' \<Longrightarrow> map_of pf k = map_of pf' k \<Longrightarrow> map_of sf k = map_of sf' k \<Longrightarrow>
   choose_action st pf sf k = choose_action st' pf' sf' k"
  by (simp add: choose_action_def seen_in_def)

lemma control_keys_differ [simp]: "STATE_KEY \<noteq> LOG_KEY" "LOG_KEY \<noteq> STATE_KEY"
  by (simp_all add: STATE_KEY_def LOG_KEY_def)

lemma body_at_print [simp]: "body_at (print_msg m w) b k = body_at w b k"
  by (simp add: body_at_def)

lemma body_at_cong: "(\<And>b. bucket w b = bucket w' b) \<Longrightarrow> body_at w = body_at w'"
  by (intro ext) (simp add: body_at_def)

lemma body_at_put:
  "faults w = [] \<Longrightarrow>
   body_at (snd (put_object b k d w)) =
     (\<lambda>b' k'. if b' = b \<and> k' = k then Some d else body_at w b' k')"
  by (intro ext) (simp add: body_at_def update_conv')

lemma body_at_delete:
  "faults w = [] \<Longrightarrow>
   body_at (snd (delete_object b k w)) =
     (\<lambda>b' k'. if b' = b \<and> k' = k then None else body_at w b' k')"
  by (intro ext) (simp add: body_at_def delete_conv')

lemma body_at_copy:
  "faults w = [] \<Longrightarrow>
   body_at (snd (copy src k dst k w)) =
     (\<lambda>b' k'. case body_at w src k of
                 None \<Rightarrow> body_at w b' k'
               | Some d \<Rightarrow> if b' = dst \<and> k' = k then Some d else body_at w b' k')"
  by (intro ext) (simp add: body_at_def update_conv' split: option.split)

lemma copy_fst_quiet:
  "faults w = [] \<Longrightarrow>
   fst (copy src k dst k' w) = (case body_at w src k of None \<Rightarrow> Some ''404'' | Some d \<Rightarrow> None)"
  by (simp add: copy_fst body_at_def split: option.split)

lemma perform_sim:
  assumes "faults wa = []" "faults wb = []" "body_at wa = body_at wb"
  shows "fst (perform a k wa) = fst (perform a k wb)
       \<and> body_at (snd (perform a k wa)) = body_at (snd (perform a k wb))"
  using assms
  by (cases a)
     (simp_all add: perform_def body_at_delete body_at_copy copy_fst_quiet
        cong: if_cong option.case_cong)

lemma body_at_save_progress_log:
  "faults w = [] \<Longrightarrow>
   body_at (save_progress_log S w) =
     (\<lambda>b k. if k = LOG_KEY then Some (LogDoc (sorted_list_of_set S)) else body_at w b k)"
proof (intro ext)
  fix b k
  assume q: "faults w = []"
  show "body_at (save_progress_log S w) b k =
        (if k = LOG_KEY then Some (LogDoc (sorted_list_of_set S)) else body_at w b k)"
  proof (cases "k = LOG_KEY")
    case True
    have "body_at (save_progress_log S w) b LOG_KEY = Some (LogDoc (sorted_list_of_set S))"
      unfolding body_at_def by (rule save_progress_log_stored) (simp_all add: q)
    with True show ?thesis by simp
  next
    case False
    then show ?thesis
      by (simp add: body_at_def save_progress_log_frame(1))
  qed
qed

lemma process_key_unfold:
  "process_key st pf sf k c w =
     (if k \<in> c then (Inr c, w)
      else case fst (perform (choose_action st pf sf k) k w) of
             Some e \<Rightarrow> (Inl e, print_msg (ErrorProcessing k e)
                                (snd (perform (choose_action st pf sf k) k w)))
           | None \<Rightarrow>
               if choose_action st pf sf k \<noteq> NO_ACTION
               then (Inr (insert k c),
                     save_progress_log (insert k c) (snd (perform (choose_action st pf sf k) k w)))
               else (Inr c, snd (perform (choose_action st pf sf k) k w)))"
  by (simp add: process_key_def Let_def split_beta split: option.split)

lemma process_key_sim:
  assumes "faults wa = []" "faults wb = []" "body_at wa = body_at wb"
    and "choose_action st pf sf k = choose_action st' pf' sf' k"
  shows "fst (process_key st pf sf k c wa) = fst (process_key st' pf' sf' k c wb)
       \<and> body_at (snd (process_key st pf sf k c wa)) = body_at (snd (process_key st' pf' sf' k c wb))"
proof -
  let ?a = "choose_action st' pf' sf' k"
  let ?pa = "perform ?a k wa" and ?pb = "perform ?a k wb"
  have p: "fst ?pa = fst ?pb" "body_at (snd ?pa) = body_at (snd ?pb)"
    using perform_sim [OF assms(1-3), of ?a k] by simp_all
  have qa: "faults (snd ?pa) = []" and qb: "faults (snd ?pb) = []"
    using assms(1,2) by (simp_all add: perform_quiet)
  have s: "body_at (save_progress_log S (snd ?pa)) = body_at (save_progress_log S (snd ?pb))" for S
    by (simp add: body_at_save_progress_log [OF qa] body_at_save_progress_log [OF qb] p(2)
        cong: if_cong)
  have e: "body_at (print_msg m (snd ?pa)) = body_at (print_msg m (snd ?pb))" for m
    by (intro ext) (simp add: p(2))
  show ?thesis
  proof (cases "k \<in> c")
    case True
    then show ?thesis using assms(3) by (simp add: process_key_unfold)
  next
    case False
    show ?thesis
    proof (cases "fst ?pb")
      case None
      then show ?thesis
        using False p s assms(3) by (auto simp: process_key_unfold assms(4) perform_def)
    next
      case (Some err)
      then show ?thesis
        using False p e by (simp add: process_key_unfold assms(4))
    qed
  qed
qed

lemma sync_loop_sim:
  assumes "faults wa = []" "faults wb = []" "body_at wa = body_at wb"
    and "\<And>k. k \<in> set ks \<Longrightarrow> choose_action st pf sf k = choose_action st' pf' sf' k"
  shows "fst (sync_loop st pf sf ks c wa) = fst (sync_loop st' pf' sf' ks c wb)
       \<and> body_at (snd (sync_loop st pf sf ks c wa)) = body_at (snd (sync_loop st' pf' sf' ks c wb))"
  using assms
proof (induction ks arbitrary: c wa wb)
  case Nil
  then show ?case by simp
next
  case (Cons k ks)
  let ?ra = "process_key st pf sf k c wa" and ?rb = "process_key st' pf' sf' k c wb"
  have ch: "choose_action st pf sf k = choose_action st' pf' sf' k"
    by (rule Cons.prems(4)) simp
  note s = process_key_sim [OF Cons.prems(1-3) ch, of c]
  have qa: "faults (snd ?ra) = []" and qb: "faults (snd ?rb) = []"
    using Cons.prems(1,2) by (simp_all add: process_key_quiet)
  have ih: "fst (sync_loop st pf sf ks c1 (snd ?ra)) = fst (sync_loop st' pf' sf' ks c1 (snd ?rb))
       \<and> body_at (snd (sync_loop st pf sf ks c1 (snd ?ra))) =
         body_at (snd (sync_loop st' pf' sf' ks c1 (snd ?rb)))" for c1
    by (rule Cons.IH [OF qa qb]) (use s Cons.prems(4) in auto)
  have b: "body_at (snd ?ra) = body_at (snd ?rb)" using s by simp
  show ?case
  proof (cases "fst ?ra")
    case (Inl e)
    moreover from Inl s have "fst ?rb = Inl e" by simp
    ultimately show ?thesis using b by (simp add: split_beta)
  next
    case (Inr c1)
    moreover from Inr s have "fst ?rb = Inr c1" by simp
    ultimately show ?thesis using ih [of c1] by (simp add: split_beta)
  qed
qed

lemma update_fresh: "k \<notin> fst ` set al \<Longrightarrow> AList.update k v al = al @ [(k, v)]"
  by (induction al) auto

lemma rebuild_loop_seen:
  "distinct ks \<Longrightarrow> set ks \<inter> fst ` set fs = {} \<Longrightarrow>
   map (\<lambda>kr. (fst kr, last_seen_in (snd kr))) (fst (rebuild_loop pf sf ks fs w)) =
     map (\<lambda>kr. (fst kr, last_seen_in (snd kr))) fs @
     map (\<lambda>k. (k, (if k \<in> fst ` set pf then [''primary''] else []) @
                  (if k \<in> fst ` set sf then [''secondary''] else []))) ks"
proof (induction ks arbitrary: fs w)
  case Nil
  show ?case by simp
next
  case (Cons k ks)
  let ?r = "fst (rebuild_entry pf sf k w)"
  have fresh: "k \<notin> fst ` set fs" using Cons.prems(2) by auto
  have u: "AList.update k ?r fs = fs @ [(k, ?r)]"
    using fresh by (rule update_fresh)
  have d: "distinct ks" and dj: "set ks \<inter> fst ` set (fs @ [(k, ?r)]) = {}"
    using Cons.prems by auto
  from Cons.IH [OF d dj] show ?case
    by (simp add: split_beta u) (simp add: rebuild_entry_eq)
qed

lemma rebuild_files_state_seen:
  "map (\<lambda>kr. (fst kr, last_seen_in (snd kr))) (fst (rebuild_files_state pf sf w)) =
     map (\<lambda>k. (k, (if k \<in> fst ` set pf then [''primary''] else []) @
                  (if k \<in> fst ` set sf then [''secondary''] else [])))
       (sorted_list_of_set (fst ` set pf \<union> fst ` set sf))"
  using rebuild_loop_seen [of "sorted_list_of_set (fst ` set pf \<union> fst ` set sf)" "[]" pf sf w]
  by (simp add: rebuild_files_state_def)

lemma put_object_time [simp]:
  "tick w \<le> tick (snd (put_object b k d w))"
  by simp

lemma copy_time:
  "clock (snd (copy src k dst k' w)) = clock w" "tick w \<le> tick (snd (copy src k dst k' w))"
  by (simp_all add: copy_def take_fault_eq record_call_def now_eq split_beta
      split: option.split)

lemma save_log_loop_time:
  "clock (save_log_loop bs d w) = clock w \<and> tick w \<le> tick (save_log_loop bs d w)"
proof (induction bs arbitrary: w)
  case Nil
  show ?case by simp
next
  case (Cons b bs)
  let ?w = "snd (put_object b LOG_KEY d w)"
  have 1: "clock (save_log_loop bs d ?w) = clock w \<and> tick w \<le> tick (save_log_loop bs d ?w)"
    using Cons.IH [of ?w] by (auto split: if_splits)
  have 2: "clock (save_log_loop bs d (print_msg m ?w)) = clock w
         \<and> tick w \<le> tick (save_log_loop bs d (print_msg m ?w))" for m
    using Cons.IH [of "print_msg m ?w"] by (auto split: if_splits)
  show ?case
    using 1 2 by (simp add: split_beta del: put_object_fields split: option.split)
qed

lemma perform_time:
  "clock (snd (perform a k w)) = clock w \<and> tick w \<le> tick (snd (perform a k w))"
proof -
  have c: "tick w \<le> tick (snd (copy src k dst k' (print_msg m w)))" for src dst k' m
    using copy_time(2) [of "print_msg m w" src k dst k'] by simp
  show ?thesis
    by (cases a) (simp_all add: perform_def copy_time(1) c)
qed

lemma process_key_time:
  "clock (snd (process_key st pf sf k c w)) = clock w
   \<and> tick w \<le> tick (snd (process_key st pf sf k c w))"
proof -
  let ?p = "snd (perform (choose_action st pf sf k) k w)"
  have s: "clock (save_progress_log S ?p) = clock w \<and> tick w \<le> tick (save_progress_log S ?p)" for S
    using save_log_loop_time [of "[PRIMARY_BUCKET, SECONDARY_BUCKET]" "LogDoc (sorted_list_of_set S)" ?p]
      perform_time [of "choose_action st pf sf k" k w]
    by (simp add: save_progress_log_def del: save_log_loop.simps)
  show ?thesis
    using process_key_cases [of st pf sf k c w] s perform_time [of "choose_action st pf sf k" k w]
    by auto
qed

lemma sync_loop_time:
  "clock (snd (sync_loop st pf sf ks c w)) = clock w
   \<and> tick w \<le> tick (snd (sync_loop st pf sf ks c w))"
proof (induction ks arbitrary: c w)
  case Nil
  show ?case by simp
next
  case (Cons k ks)
  let ?r = "process_key st pf sf k c w"
  note p = process_key_time [of st pf sf k c w]
  show ?case
  proof (cases "fst ?r")
    case (Inl e)
    then show ?thesis using p by (simp add: split_beta)
  next
    case (Inr c1)
    then show ?thesis
      using p Cons.IH [of c1 "snd ?r"] by (simp add: split_beta)
  qed
qed

lemma load_state_loop_time:
  "clock (snd (load_state_loop bs st w)) = clock w \<and> tick (snd (load_state_loop bs st w)) = tick w"
  by (induction bs arbitrary: st w)
     (simp_all add: split_beta get_object_def take_fault_eq record_call_def
        split: sum.split option.split json.split)

lemma load_state_time:
  "clock (snd (load_state w)) = clock w \<and> tick w \<le> tick (snd (load_state w))"
  using load_state_loop_time [of "[PRIMARY_BUCKET, SECONDARY_BUCKET]" None w]
  by (simp add: load_state_def now_eq split_beta print_msg_def del: load_state_loop.simps
      split: sum.split option.split)

lemma load_progress_log_time:
  "clock (snd (load_progress_log w)) = clock w \<and> tick (snd (load_progress_log w)) = tick w"
  by (simp add: load_progress_log_def split_beta split: sum.split option.split)

lemma list_pages_time:
  "clock (snd (list_pages b pages result w)) = clock w
   \<and> tick (snd (list_pages b pages result w)) = tick w"
  by (induction pages arbitrary: result w)
     (simp_all add: take_fault_eq record_call_def split: option.split)

lemma discover_time:
  "clock (snd (discover st prior w)) = clock w \<and> tick (snd (discover st prior w)) = tick w"
  by (simp add: discover_def Let_def split_beta list_bucket_objects_def list_pages_time)
lemma acted_on_mono:
  "acted_on a before after clk t' \<Longrightarrow> t \<le> t' \<Longrightarrow> acted_on a before after clk t"
  by (cases a) (auto simp: acted_on_def intro: order_trans)

lemma perform_effect:
  assumes "faults w = []" and "fst (perform a k w) = None"
  shows "acted_on a (\<lambda>b. map_of (bucket w b) k) (\<lambda>b. map_of (bucket (snd (perform a k w)) b) k)
           (clock w) (tick w)"
proof (cases a)
  case DELETE_FROM_PRIMARY
  then show ?thesis
    using assms(1) by (simp add: acted_on_def perform_def delete_conv')
next
  case DELETE_FROM_SECONDARY
  then show ?thesis
    using assms(1) by (simp add: acted_on_def perform_def delete_conv')
next
  case COPY_TO_SECONDARY
  let ?w = "print_msg (NewInPrimary k) w"
  have q: "faults ?w = []" using assms(1) by simp
  from assms(2) COPY_TO_SECONDARY obtain obj where o: "map_of (bucket w PRIMARY_BUCKET) k = Some obj"
    by (auto simp: perform_def copy_fst split: option.splits)
  show ?thesis
    using COPY_TO_SECONDARY o copy_lookup [OF q, of PRIMARY_BUCKET k SECONDARY_BUCKET]
    by (auto simp: acted_on_def perform_def simp del: copy_fields)
next
  case COPY_TO_PRIMARY
  let ?w = "print_msg (NewInSecondary k) w"
  have q: "faults ?w = []" using assms(1) by simp
  from assms(2) COPY_TO_PRIMARY obtain obj where o: "map_of (bucket w SECONDARY_BUCKET) k = Some obj"
    by (auto simp: perform_def copy_fst split: option.splits)
  show ?thesis
    using COPY_TO_PRIMARY o copy_lookup [OF q, of SECONDARY_BUCKET k PRIMARY_BUCKET]
    by (auto simp: acted_on_def perform_def simp del: copy_fields)
next
  case NO_ACTION
  then show ?thesis by (simp add: acted_on_def perform_def)
qed

lemma process_key_effect:
  assumes "faults w = []" and "acts st pf sf c k"
    and "fst (process_key st pf sf k c w) = Inr c'" and "k \<noteq> LOG_KEY"
  shows "acted_on (choose_action st pf sf k) (\<lambda>b. map_of (bucket w b) k)
           (\<lambda>b. map_of (bucket (snd (process_key st pf sf k c w)) b) k) (clock w) (tick w)"
proof -
  let ?a = "choose_action st pf sf k"
  from process_key_result [OF assms(3)] assms(2)
  have p: "fst (perform ?a k w) = None"
    and s: "snd (process_key st pf sf k c w) = save_progress_log (insert k c) (snd (perform ?a k w))"
    by auto
  have "map_of (bucket (snd (process_key st pf sf k c w)) b) k =
        map_of (bucket (snd (perform ?a k w)) b) k" for b
    unfolding s using assms(4) by (rule save_progress_log_frame(1))
  with perform_effect [OF assms(1) p] show ?thesis by simp
qed

lemma sync_loop_effect:
  assumes "faults w = []" and "distinct ks" and "\<And>x. x \<in> set ks \<Longrightarrow> acts st pf sf c x"
    and "fst (sync_loop st pf sf ks c w) = Inr c'" and "k \<in> set ks" and "k \<noteq> LOG_KEY"
  shows "acted_on (choose_action st pf sf k) (\<lambda>b. map_of (bucket w b) k)
           (\<lambda>b. map_of (bucket (snd (sync_loop st pf sf ks c w)) b) k) (clock w) (tick w)"
  using assms(1-5)
proof (induction ks arbitrary: c w)
  case Nil
  then show ?case by simp
next
  case (Cons k0 ks)
  let ?r = "process_key st pf sf k0 c w"
  from Cons.prems(4) obtain c1 where c1: "fst ?r = Inr c1"
    by (cases "fst ?r") (simp_all add: split_beta)
  with Cons.prems(4) have rest: "fst (sync_loop st pf sf ks c1 (snd ?r)) = Inr c'"
    by (simp add: split_beta)
  have e: "snd (sync_loop st pf sf (k0 # ks) c w) = snd (sync_loop st pf sf ks c1 (snd ?r))"
    using c1 by (simp add: split_beta)
  have a0: "acts st pf sf c k0" by (rule Cons.prems(3)) simp
  have c1e: "c1 = insert k0 c" using process_key_result [OF c1] a0 by auto
  have d: "distinct ks" and n: "k0 \<notin> set ks" using Cons.prems(2) by simp_all
  have q: "faults (snd ?r) = []" using Cons.prems(1) by (rule process_key_quiet)
  note t = process_key_time [of st pf sf k0 c w]
  show ?case
  proof (cases "k = k0")
    case True
    have "map_of (bucket (snd (sync_loop st pf sf ks c1 (snd ?r))) b) k =
          map_of (bucket (snd ?r) b) k" for b
      using n True assms(6) by (intro sync_loop_other) simp_all
    with process_key_effect [OF Cons.prems(1) a0 c1] True assms(6) show ?thesis
      unfolding e by simp
  next
    case False
    with Cons.prems(5) have k: "k \<in> set ks" by simp
    have a: "acts st pf sf c1 x" if "x \<in> set ks" for x
    proof -
      from that n have "x \<noteq> k0" by auto
      then show ?thesis
        using that Cons.prems(3) [of x] by (simp add: c1e acts_insert)
    qed
    have same: "map_of (bucket (snd ?r) b) k = map_of (bucket w b) k" for b
      using False assms(6) by (rule process_key_other)
    from Cons.IH [OF q d a rest k]
    have "acted_on (choose_action st pf sf k) (\<lambda>b. map_of (bucket w b) k)
           (\<lambda>b. map_of (bucket (snd (sync_loop st pf sf ks c1 (snd ?r))) b) k)
           (clock w) (tick (snd ?r))"
      using t by (simp add: same)
    then show ?thesis
      unfolding e using t by (auto intro: acted_on_mono)
  qed
qed

lemma source_after_action:
  assumes "acted_on a before afterU clk t" and "acted_on a before afterR clk t"
    and "\<And>b obj n. before b = Some obj \<Longrightarrow> t \<le> n \<Longrightarrow> LastModified obj < clk n"
  shows "((case afterU PRIMARY_BUCKET of None \<Rightarrow> [] | Some obj \<Rightarrow> LastModified obj) >
          (case afterU SECONDARY_BUCKET of None \<Rightarrow> [] | Some obj \<Rightarrow> LastModified obj)) =
         ((case afterR PRIMARY_BUCKET of None \<Rightarrow> [] | Some obj \<Rightarrow> LastModified obj) >
          (case afterR SECONDARY_BUCKET of None \<Rightarrow> [] | Some obj \<Rightarrow> LastModified obj))"
    and "((case afterU SECONDARY_BUCKET of None \<Rightarrow> [] | Some obj \<Rightarrow> LastModified obj) >
          (case afterU PRIMARY_BUCKET of None \<Rightarrow> [] | Some obj \<Rightarrow> LastModified obj)) =
         ((case afterR SECONDARY_BUCKET of None \<Rightarrow> [] | Some obj \<Rightarrow> LastModified obj) >
          (case afterR PRIMARY_BUCKET of None \<Rightarrow> [] | Some obj \<Rightarrow> LastModified obj))"
proof -
  show "((case afterU PRIMARY_BUCKET of None \<Rightarrow> [] | Some obj \<Rightarrow> LastModified obj) >
          (case afterU SECONDARY_BUCKET of None \<Rightarrow> [] | Some obj \<Rightarrow> LastModified obj)) =
         ((case afterR PRIMARY_BUCKET of None \<Rightarrow> [] | Some obj \<Rightarrow> LastModified obj) >
          (case afterR SECONDARY_BUCKET of None \<Rightarrow> [] | Some obj \<Rightarrow> LastModified obj))"
  proof (cases a)
    case COPY_TO_SECONDARY
    with assms(1,2) obtain obj n m where
      "before PRIMARY_BUCKET = Some obj" "t \<le> n" "t \<le> m"
      "afterU PRIMARY_BUCKET = Some obj" "afterR PRIMARY_BUCKET = Some obj"
      "afterU SECONDARY_BUCKET = Some \<lparr>LastModified = clk n, Body = Body obj\<rparr>"
      "afterR SECONDARY_BUCKET = Some \<lparr>LastModified = clk m, Body = Body obj\<rparr>"
      by (auto simp: acted_on_def)
    with assms(3) [of PRIMARY_BUCKET obj n] assms(3) [of PRIMARY_BUCKET obj m]
    show ?thesis by (auto dest: order.asym)
  next
    case COPY_TO_PRIMARY
    with assms(1,2) obtain obj n m where
      "before SECONDARY_BUCKET = Some obj" "t \<le> n" "t \<le> m"
      "afterU SECONDARY_BUCKET = Some obj" "afterR SECONDARY_BUCKET = Some obj"
      "afterU PRIMARY_BUCKET = Some \<lparr>LastModified = clk n, Body = Body obj\<rparr>"
      "afterR PRIMARY_BUCKET = Some \<lparr>LastModified = clk m, Body = Body obj\<rparr>"
      by (auto simp: acted_on_def)
    with assms(3) [of SECONDARY_BUCKET obj n] assms(3) [of SECONDARY_BUCKET obj m]
    show ?thesis by (auto dest: order.asym)
  qed (use assms(1,2) in \<open>auto simp: acted_on_def\<close>)
  show "((case afterU SECONDARY_BUCKET of None \<Rightarrow> [] | Some obj \<Rightarrow> LastModified obj) >
          (case afterU PRIMARY_BUCKET of None \<Rightarrow> [] | Some obj \<Rightarrow> LastModified obj)) =
         ((case afterR SECONDARY_BUCKET of None \<Rightarrow> [] | Some obj \<Rightarrow> LastModified obj) >
          (case afterR PRIMARY_BUCKET of None \<Rightarrow> [] | Some obj \<Rightarrow> LastModified obj))"
  proof (cases a)
    case COPY_TO_SECONDARY
    with assms(1,2) obtain obj n m where
      "before PRIMARY_BUCKET = Some obj" "t \<le> n" "t \<le> m"
      "afterU PRIMARY_BUCKET = Some obj" "afterR PRIMARY_BUCKET = Some obj"
      "afterU SECONDARY_BUCKET = Some \<lparr>LastModified = clk n, Body = Body obj\<rparr>"
      "afterR SECONDARY_BUCKET = Some \<lparr>LastModified = clk m, Body = Body obj\<rparr>"
      by (auto simp: acted_on_def)
    with assms(3) [of PRIMARY_BUCKET obj n] assms(3) [of PRIMARY_BUCKET obj m]
    show ?thesis by (auto dest: order.asym)
  next
    case COPY_TO_PRIMARY
    with assms(1,2) obtain obj n m where
      "before SECONDARY_BUCKET = Some obj" "t \<le> n" "t \<le> m"
      "afterU SECONDARY_BUCKET = Some obj" "afterR SECONDARY_BUCKET = Some obj"
      "afterU PRIMARY_BUCKET = Some \<lparr>LastModified = clk n, Body = Body obj\<rparr>"
      "afterR PRIMARY_BUCKET = Some \<lparr>LastModified = clk m, Body = Body obj\<rparr>"
      by (auto simp: acted_on_def)
    with assms(3) [of SECONDARY_BUCKET obj n] assms(3) [of SECONDARY_BUCKET obj m]
    show ?thesis by (auto dest: order.asym)
  qed (use assms(1,2) in \<open>auto simp: acted_on_def\<close>)
qed

lemma keys_body_at: "fst ` set (bucket w b) = {k. body_at w b k \<noteq> None}"
proof -
  have "k \<in> fst ` set (bucket w b) \<longleftrightarrow> body_at w b k \<noteq> None" for k
    using map_of_eq_None_iff [of "bucket w b" k] by (simp add: body_at_def)
  then show ?thesis by blast
qed

lemma save_state_loop_quiet:
  "faults w = [] \<Longrightarrow>
   faults (save_state_loop bs d w) = []
   \<and> body_at (save_state_loop bs d w) =
       (\<lambda>b k. if b \<in> set bs \<and> k = STATE_KEY then Some d else body_at w b k)"
proof (induction bs arbitrary: w)
  case Nil
  then show ?case by simp
next
  case (Cons b bs)
  let ?w = "snd (put_object b STATE_KEY d w)"
  have q: "faults ?w = []" using Cons.prems by simp
  have e: "save_state_loop (b # bs) d w = save_state_loop bs d ?w"
    using Cons.prems by (simp add: split_beta)
  show ?case
    unfolding e using Cons.IH [OF q] body_at_put [OF Cons.prems, of b STATE_KEY d]
    by (auto intro!: ext)
qed

lemma save_state_quiet:
  assumes "faults w = []"
  shows "faults (save_state s w) = []"
    and "body_at (save_state s w) =
       (\<lambda>b k. if k = STATE_KEY then Some (StateDoc (s\<lparr>last_updated := clock w (tick w)\<rparr>))
               else body_at w b k)"
proof -
  let ?w = "w\<lparr>tick := Suc (tick w)\<rparr>"
  let ?d = "StateDoc (s\<lparr>last_updated := clock w (tick w)\<rparr>)"
  have e: "save_state s w = save_state_loop [PRIMARY_BUCKET, SECONDARY_BUCKET] ?d ?w"
    by (simp add: save_state_def now_eq Let_def del: save_state_loop.simps)
  have q: "faults ?w = []" using assms by simp
  have b: "body_at ?w = body_at w" by (intro ext) (simp add: body_at_def)
  have all: "b' \<in> set [PRIMARY_BUCKET, SECONDARY_BUCKET]" for b'
    by (cases b') simp_all
  from save_state_loop_quiet [OF q, of "[PRIMARY_BUCKET, SECONDARY_BUCKET]" ?d]
  show "faults (save_state s w) = []"
    unfolding e by blast
  from save_state_loop_quiet [OF q, of "[PRIMARY_BUCKET, SECONDARY_BUCKET]" ?d]
  show "body_at (save_state s w) =
       (\<lambda>b k. if k = STATE_KEY then Some ?d else body_at w b k)"
    unfolding e using all by (simp add: b del: save_state_loop.simps set_simps cong: if_cong)
qed

lemma delete_log_loop_quiet:
  "faults w = [] \<Longrightarrow>
   faults (delete_log_loop bs w) = []
   \<and> body_at (delete_log_loop bs w) =
       (\<lambda>b k. if b \<in> set bs \<and> k = LOG_KEY then None else body_at w b k)"
proof (induction bs arbitrary: w)
  case Nil
  then show ?case by simp
next
  case (Cons b bs)
  let ?w = "snd (delete_object b LOG_KEY w)"
  have q: "faults ?w = []" using Cons.prems by simp
  have e: "delete_log_loop (b # bs) w = delete_log_loop bs ?w"
    using Cons.prems by (simp add: split_beta)
  show ?case
    unfolding e using Cons.IH [OF q] body_at_delete [OF Cons.prems, of b LOG_KEY]
    by (auto intro!: ext)
qed

lemma delete_progress_log_quiet:
  assumes "faults w = []"
  shows "body_at (delete_progress_log w) = (\<lambda>b k. if k = LOG_KEY then None else body_at w b k)"
proof -
  have all: "b' \<in> set [PRIMARY_BUCKET, SECONDARY_BUCKET]" for b'
    by (cases b') simp_all
  from delete_log_loop_quiet [OF assms, of "[PRIMARY_BUCKET, SECONDARY_BUCKET]"]
  show ?thesis
    unfolding delete_progress_log_def using all
    by (simp del: delete_log_loop.simps set_simps cong: if_cong)
qed

lemma rebuild_loop_sources:
  "distinct ks \<Longrightarrow> set ks \<inter> fst ` set fs = {} \<Longrightarrow>
   map (\<lambda>kr. (fst kr, source (snd kr))) (fst (rebuild_loop pf sf ks fs w)) =
     map (\<lambda>kr. (fst kr, source (snd kr))) fs @
     map (\<lambda>k. (k, if get_default pf k [] > get_default sf k [] then ''primary''
                   else if get_default sf k [] > get_default pf k [] then ''secondary''
                   else ''equal'')) ks"
proof (induction ks arbitrary: fs w)
  case Nil
  show ?case by simp
next
  case (Cons k ks)
  let ?r = "fst (rebuild_entry pf sf k w)"
  have fresh: "k \<notin> fst ` set fs" using Cons.prems(2) by auto
  have u: "AList.update k ?r fs = fs @ [(k, ?r)]"
    using fresh by (rule update_fresh)
  have d: "distinct ks" and dj: "set ks \<inter> fst ` set (fs @ [(k, ?r)]) = {}"
    using Cons.prems by auto
  from Cons.IH [OF d dj] show ?case
    by (simp add: split_beta u) (simp add: rebuild_entry_eq)
qed

lemma rebuild_files_state_sources:
  "map (\<lambda>kr. (fst kr, source (snd kr))) (fst (rebuild_files_state pf sf w)) =
     map (\<lambda>k. (k, if get_default pf k [] > get_default sf k [] then ''primary''
                   else if get_default sf k [] > get_default pf k [] then ''secondary''
                   else ''equal''))
       (sorted_list_of_set (fst ` set pf \<union> fst ` set sf))"
  using rebuild_loop_sources [of "sorted_list_of_set (fst ` set pf \<union> fst ` set sf)" "[]" pf sf w]
  by (simp add: rebuild_files_state_def)

lemma finite_present: "finite {k. body_at w b k \<noteq> None}"
  unfolding keys_body_at [symmetric] by simp

lemma listed_keys:
  "fst ` set (add_page (bucket w b) []) = {k. body_at w b k \<noteq> None} - {STATE_KEY, LOG_KEY}"
  by (simp add: keys_add_page keys_body_at)

lemma listed_stamp:
  "distinct (map fst (bucket w b)) \<Longrightarrow> k \<noteq> STATE_KEY \<Longrightarrow> k \<noteq> LOG_KEY \<Longrightarrow>
   get_default (add_page (bucket w b) []) k [] = stamp_at w b k"
  by (simp add: get_default_def stamp_at_def map_of_add_page split: option.split)

lemma finish_doc:
  assumes "faults w = []"
  shows "\<exists>fs t w3.
      (\<forall>b k. body_at (finish st w) b k =
                  (if k = LOG_KEY then None
                   else if k = STATE_KEY then Some (StateDoc (st\<lparr>files := fs, last_updated := t\<rparr>))
                   else body_at w b k))
    \<and> fs = fst (rebuild_files_state (add_page (bucket w PRIMARY_BUCKET) [])
                  (add_page (bucket w SECONDARY_BUCKET) []) w3)"
proof -
  let ?w1 = "print_msg SyncActionsComplete w"
  let ?l1 = "list_bucket_objects PRIMARY_BUCKET ?w1"
  let ?l2 = "list_bucket_objects SECONDARY_BUCKET (snd ?l1)"
  let ?rb = "rebuild_files_state (fst ?l1) (fst ?l2) (snd ?l2)"
  let ?st = "st\<lparr>files := fst ?rb\<rparr>"
  let ?w5 = "save_state ?st (snd ?rb)"
  let ?w6 = "print_msg CleaningUp ?w5"
  let ?t = "clock (snd ?rb) (tick (snd ?rb))"
  have f: "finish st w = delete_progress_log ?w6"
    by (simp add: finish_def Let_def split_beta)
  have q1: "faults ?w1 = []" using assms by simp
  have q2: "faults (snd ?l1) = []" using q1 by (rule list_bucket_objects_frame(2))
  have q3: "faults (snd ?l2) = []" using q2 by (rule list_bucket_objects_frame(2))
  have q4: "faults (snd ?rb) = []" using q3 by (simp add: rebuild_files_state_frame)
  have q6: "faults ?w6 = []" using save_state_quiet(1) [OF q4] by simp
  have bk: "bucket (snd ?rb) b = bucket w b" for b
    by (simp add: rebuild_files_state_frame list_bucket_objects_frame)
  have b4: "body_at (snd ?rb) = body_at w"
    by (rule body_at_cong) (rule bk)
  have l1: "fst ?l1 = add_page (bucket w PRIMARY_BUCKET) []"
    using list_bucket_objects_quiet [OF q1, of PRIMARY_BUCKET] by simp
  have l2: "fst ?l2 = add_page (bucket w SECONDARY_BUCKET) []"
    using list_bucket_objects_quiet [OF q2, of SECONDARY_BUCKET]
    by (simp add: list_bucket_objects_frame)
  have b6: "body_at ?w6 =
      (\<lambda>b k. if k = STATE_KEY then Some (StateDoc (?st\<lparr>last_updated := ?t\<rparr>)) else body_at w b k)"
    using save_state_quiet(2) [OF q4, of ?st] by (intro ext) (simp add: b4)
  have 1: "\<forall>b k. body_at (finish st w) b k =
                  (if k = LOG_KEY then None
                   else if k = STATE_KEY
                        then Some (StateDoc (st\<lparr>files := fst ?rb, last_updated := ?t\<rparr>))
                   else body_at w b k)"
    unfolding f delete_progress_log_quiet [OF q6] b6 by simp
  have 2: "fst ?rb = fst (rebuild_files_state (add_page (bucket w PRIMARY_BUCKET) [])
                  (add_page (bucket w SECONDARY_BUCKET) []) (snd ?l2))"
    by (simp only: l1 l2)
  from 1 2 show ?thesis by blast
qed

lemma finish_sim:
  assumes "faults wa = []" "faults wb = []" "body_at wa = body_at wb"
  shows "(\<forall>b k. k \<noteq> STATE_KEY \<longrightarrow> body_at (finish st wa) b k = body_at (finish st' wb) b k)
       \<and> (\<exists>sa sb. (\<forall>b. body_at (finish st wa) b STATE_KEY = Some (StateDoc sa)
                     \<and> body_at (finish st' wb) b STATE_KEY = Some (StateDoc sb))
             \<and> seen_map sa = seen_map sb
             \<and> ((\<forall>b. distinct (map fst (bucket wa b))) \<and> (\<forall>b. distinct (map fst (bucket wb b)))
                \<and> (\<forall>k. k \<noteq> STATE_KEY \<and> k \<noteq> LOG_KEY \<longrightarrow> source_at wa k = source_at wb k)
                \<longrightarrow> source_map sa = source_map sb))"
proof -
  let ?K = "\<lambda>w. ({k. body_at w PRIMARY_BUCKET k \<noteq> None} - {STATE_KEY, LOG_KEY}) \<union>
                ({k. body_at w SECONDARY_BUCKET k \<noteq> None} - {STATE_KEY, LOG_KEY})"
  let ?pf = "\<lambda>w. add_page (bucket w PRIMARY_BUCKET) []"
  let ?sf = "\<lambda>w. add_page (bucket w SECONDARY_BUCKET) []"
  let ?loc = "\<lambda>w k. (if k \<in> {k. body_at w PRIMARY_BUCKET k \<noteq> None} - {STATE_KEY, LOG_KEY}
                        then [''primary''] else []) @
                     (if k \<in> {k. body_at w SECONDARY_BUCKET k \<noteq> None} - {STATE_KEY, LOG_KEY}
                        then [''secondary''] else [])"
  from finish_doc [OF assms(1), of st] obtain fa ta wa3 where
    a: "\<And>b k. body_at (finish st wa) b k =
                  (if k = LOG_KEY then None
                   else if k = STATE_KEY then Some (StateDoc (st\<lparr>files := fa, last_updated := ta\<rparr>))
                   else body_at wa b k)"
    and fa: "fa = fst (rebuild_files_state (?pf wa) (?sf wa) wa3)"
    by blast
  from finish_doc [OF assms(2), of st'] obtain fb tb wb3 where
    b: "\<And>b k. body_at (finish st' wb) b k =
                  (if k = LOG_KEY then None
                   else if k = STATE_KEY then Some (StateDoc (st'\<lparr>files := fb, last_updated := tb\<rparr>))
                   else body_at wb b k)"
    and fb: "fb = fst (rebuild_files_state (?pf wb) (?sf wb) wb3)"
    by blast
  let ?sa = "st\<lparr>files := fa, last_updated := ta\<rparr>" and ?sb = "st'\<lparr>files := fb, last_updated := tb\<rparr>"
  have seen: "seen_map (s\<lparr>files := fst (rebuild_files_state (?pf w) (?sf w) w3), last_updated := t\<rparr>) =
        map (\<lambda>k. (k, ?loc w k)) (sorted_list_of_set (?K w))" for s w w3 t
    by (simp add: seen_map_def rebuild_files_state_seen listed_keys)
  have s1: "seen_map ?sa = seen_map ?sb"
    unfolding fa fb seen assms(3) ..
  have src: "source_map (s\<lparr>files := fst (rebuild_files_state (?pf w) (?sf w) w3), last_updated := t\<rparr>) =
        map (\<lambda>k. (k, source_at w k)) (sorted_list_of_set (?K w))"
    if d: "\<And>b. distinct (map fst (bucket w b))" for s w w3 t
  proof -
    have fin: "finite (?K w)"
      by (intro finite_UnI finite_Diff finite_present)
    have "(if get_default (?pf w) k [] > get_default (?sf w) k [] then ''primary''
           else if get_default (?sf w) k [] > get_default (?pf w) k [] then ''secondary''
           else ''equal'') = source_at w k"
      if "k \<in> set (sorted_list_of_set (?K w))" for k
    proof -
      from that fin have "k \<noteq> STATE_KEY" "k \<noteq> LOG_KEY" by auto
      then show ?thesis
        by (simp add: source_at_def listed_stamp [OF d])
    qed
    then show ?thesis
      by (simp add: source_map_def rebuild_files_state_sources listed_keys)
  qed
  have s2: "source_map ?sa = source_map ?sb"
    if "\<forall>b. distinct (map fst (bucket wa b))" "\<forall>b. distinct (map fst (bucket wb b))"
      "\<forall>k. k \<noteq> STATE_KEY \<and> k \<noteq> LOG_KEY \<longrightarrow> source_at wa k = source_at wb k"
  proof -
    have fin: "finite (?K wb)"
      by (intro finite_UnI finite_Diff finite_present)
    have "source_at wa k = source_at wb k" if "k \<in> set (sorted_list_of_set (?K wb))" for k
    proof -
      from that fin have "k \<noteq> STATE_KEY \<and> k \<noteq> LOG_KEY" by auto
      with \<open>\<forall>k. k \<noteq> STATE_KEY \<and> k \<noteq> LOG_KEY \<longrightarrow> source_at wa k = source_at wb k\<close>
      show ?thesis by blast
    qed
    then have "map (\<lambda>k. (k, source_at wa k)) (sorted_list_of_set (?K wb)) =
               map (\<lambda>k. (k, source_at wb k)) (sorted_list_of_set (?K wb))"
      by simp
    then show ?thesis
      unfolding fa fb using src [of wa] src [of wb] that(1,2) by (simp add: assms(3))
  qed
  have 1: "\<forall>b k. k \<noteq> STATE_KEY \<longrightarrow> body_at (finish st wa) b k = body_at (finish st' wb) b k"
    by (simp add: a b assms(3))
  have 2: "\<forall>b. body_at (finish st wa) b STATE_KEY = Some (StateDoc ?sa)
             \<and> body_at (finish st' wb) b STATE_KEY = Some (StateDoc ?sb)"
    by (simp add: a b)
  from 1 2 s1 s2 show ?thesis by blast
qed

lemma discover_quiet:
  assumes "faults w = []" and "\<And>b. distinct (map fst (bucket w b))"
    and "discover state prior w = ((pf, sf, ks), w5)"
  shows "map_of pf k = (if k \<in> {STATE_KEY, LOG_KEY} then None
                        else map_option LastModified (map_of (bucket w PRIMARY_BUCKET) k))"
    and "map_of sf k = (if k \<in> {STATE_KEY, LOG_KEY} then None
                        else map_option LastModified (map_of (bucket w SECONDARY_BUCKET) k))"
    and "ks = all_keys state pf sf"
    and "faults w5 = []" and "\<And>b. bucket w5 b = bucket w b"
proof -
  let ?w2 = "print_msg Discovering
               (if prior \<noteq> {} then print_msg (Resuming (card prior)) w else w)"
  let ?l1 = "list_bucket_objects PRIMARY_BUCKET ?w2"
  let ?l2 = "list_bucket_objects SECONDARY_BUCKET (snd ?l1)"
  have q2: "faults ?w2 = []" using assms(1) by simp
  have b2: "bucket ?w2 b = bucket w b" for b by simp
  have q3: "faults (snd ?l1) = []" using q2 by (rule list_bucket_objects_frame(2))
  have b3: "bucket (snd ?l1) b = bucket w b" for b
    by (simp add: list_bucket_objects_frame(1))
  have e: "discover state prior w =
        ((fst ?l1, fst ?l2, all_keys state (fst ?l1) (fst ?l2)),
         print_msg (FoundTotal (length (all_keys state (fst ?l1) (fst ?l2)))) (snd ?l2))"
    by (simp add: discover_def Let_def split_beta)
  have pf: "pf = fst ?l1" and sf: "sf = fst ?l2"
    using assms(3) unfolding e by simp_all
  have ks: "ks = all_keys state pf sf"
    using assms(3) unfolding e by (simp add: pf sf)
  have w5: "w5 = print_msg (FoundTotal (length ks)) (snd ?l2)"
    using assms(3) unfolding e by (simp add: pf sf ks)
  show "map_of pf k = (if k \<in> {STATE_KEY, LOG_KEY} then None
                        else map_option LastModified (map_of (bucket w PRIMARY_BUCKET) k))"
    unfolding pf using listing_quiet(2) [OF q2, of PRIMARY_BUCKET k] assms(2) [of PRIMARY_BUCKET]
    by (simp only: b2)
  show "map_of sf k = (if k \<in> {STATE_KEY, LOG_KEY} then None
                        else map_option LastModified (map_of (bucket w SECONDARY_BUCKET) k))"
    unfolding sf using listing_quiet(2) [OF q3, of SECONDARY_BUCKET k] assms(2) [of SECONDARY_BUCKET]
    by (simp only: b3)
  show "ks = all_keys state pf sf" by (rule ks)
  show "faults w5 = []"
    unfolding w5 using list_bucket_objects_frame(2) [OF q3] by simp
  show "bucket w5 b = bucket w b" for b
    unfolding w5 by (simp add: list_bucket_objects_frame(1))
qed

lemma listed_not_control:
  assumes "map_of pf k = (if k \<in> {STATE_KEY, LOG_KEY} then None else x)"
    and "map_of sf k = (if k \<in> {STATE_KEY, LOG_KEY} then None else y)"
    and "choose_action state pf sf k \<noteq> NO_ACTION"
  shows "k \<noteq> STATE_KEY \<and> k \<noteq> LOG_KEY"
proof -
  from assms(3) have "k \<in> fst ` set pf \<union> fst ` set sf" by (rule choose_action_listed)
  then have "map_of pf k \<noteq> None \<or> map_of sf k \<noteq> None"
    by (auto simp: map_of_eq_None_iff)
  with assms(1,2) show ?thesis by (auto split: if_splits)
qed

lemma replicate_resilient_Inr:
  assumes "fst (replicate_resilient w) = Inr (Inr ())"
  obtains state w1 prior w2 pf sf ks w5 c w6 where
    "load_state w = (Inr (JObject state), w1)" "load_progress_log w1 = (Inr prior, w2)"
    "discover state prior w2 = ((pf, sf, ks), w5)"
    "sync_loop state pf sf ks prior w5 = (Inr c, w6)"
    "snd (replicate_resilient w) = finish state w6"
  using assms
  by (auto simp: replicate_resilient_def run_from_def split: prod.splits sum.splits json.splits)

lemma replicate_resilient_intro:
  assumes "load_state w = (Inr (JObject state), w1)" "load_progress_log w1 = (Inr prior, w2)"
    "discover state prior w2 = ((pf, sf, ks), w5)"
    "sync_loop state pf sf ks prior w5 = (Inr c, w6)"
  shows "replicate_resilient w = (Inr (Inr ()), finish state w6)"
  using assms by (simp add: replicate_resilient_def run_from_def)

lemma interrupted_eq:
  assumes "load_state w = (Inr (JObject state), w1)" "load_progress_log w1 = (Inr prior, w2)"
    "discover state prior w2 = ((pf, sf, ks), w5)"
  shows "interrupted n w = snd (sync_loop state pf sf (take n ks) prior w5)"
  using assms by (simp add: interrupted_def)

lemma action_key_request:
  "request a k = Some c \<Longrightarrow> action_key c = Some k' \<Longrightarrow> k' = k"
  by (cases a) (auto simp: request_def action_key_def split: if_splits)

lemma request_acts:
  "request (choose_action state pf sf k) k = Some c \<Longrightarrow> k \<notin> completed \<Longrightarrow>
   acts state pf sf completed k"
  by (auto simp: acts_def request_def)

lemma sorted_distinct_all_keys:
  "sorted (all_keys state pf sf)" "distinct (all_keys state pf sf)"
  by (simp_all add: all_keys_def)

lemma sorted_distinct_filter_eq:
  assumes "sorted xs" "distinct xs" "sorted ys" "distinct ys"
    and "\<And>k. k \<in> set xs \<and> P k \<longleftrightarrow> k \<in> set ys \<and> Q k"
  shows "filter P xs = filter Q ys"
proof (rule sorted_distinct_set_unique)
  show "sorted (filter P xs)" using assms(1) by (rule sorted_wrt_filter)
  show "sorted (filter Q ys)" using assms(3) by (rule sorted_wrt_filter)
  show "distinct (filter P xs)" using assms(2) by simp
  show "distinct (filter Q ys)" using assms(4) by simp
  show "set (filter P xs) = set (filter Q ys)" using assms(5) by auto
qed

lemma resume_core:
  assumes q: "faults w = []" and d: "\<And>b. distinct (map fst (bucket w b))"
    and ls: "load_state w = (Inr (JObject state), w1)"
    and lp: "load_progress_log w1 = (Inr prior, w2)"
    and di: "discover state prior w2 = ((pf, sf, ks), w5)"
    and lo: "sync_loop state pf sf ks prior w5 = (Inr cU, w6)"
  shows "\<exists>state' w6' A B.
           replicate_resilient (interrupted n w) = (Inr (Inr ()), finish state' w6')
         \<and> faults w6 = [] \<and> faults w6' = [] \<and> body_at w6 = body_at w6'
         \<and> (\<forall>b. distinct (map fst (bucket w6 b))) \<and> (\<forall>b. distinct (map fst (bucket w6' b)))
         \<and> (clock_ahead w \<longrightarrow>
              (\<forall>k. k \<noteq> STATE_KEY \<and> k \<noteq> LOG_KEY \<longrightarrow> source_at w6 k = source_at w6' k))
         \<and> A \<inter> B = {}
         \<and> calls_extend (\<lambda>c. \<forall>k. action_key c = Some k \<longrightarrow> k \<in> A) w (interrupted n w)
         \<and> calls_extend (\<lambda>c. \<forall>k. action_key c = Some k \<longrightarrow> k \<in> B) (interrupted n w)
              (finish state' w6')"
proof -
  \<comment> \<open>the first run, up to the loop\<close>
  have w1: "w1 = snd (load_state w)" and w2: "w2 = snd (load_progress_log w1)"
    using ls lp by simp_all
  have q1: "faults w1 = []" and b1: "\<And>b. bucket w1 b = bucket w b"
    unfolding w1 using q by (simp_all add: load_state_frame)
  have q2: "faults w2 = []" and b2: "\<And>b. bucket w2 b = bucket w b"
    unfolding w2 using q1 b1 by (simp_all add: load_progress_log_frame)
  have d2: "\<And>b. distinct (map fst (bucket w2 b))" using d by (simp add: b2)
  note dq = discover_quiet [OF q2 d2 di]
  have pfk: "map_of pf k = (if k \<in> {STATE_KEY, LOG_KEY} then None
                        else map_option LastModified (map_of (bucket w PRIMARY_BUCKET) k))" for k
    using dq(1) [of k] by (simp only: b2)
  have sfk: "map_of sf k = (if k \<in> {STATE_KEY, LOG_KEY} then None
                        else map_option LastModified (map_of (bucket w SECONDARY_BUCKET) k))" for k
    using dq(2) [of k] by (simp only: b2)
  have ks: "ks = all_keys state pf sf" by (rule dq(3))
  have q5: "faults w5 = []" by (rule dq(4))
  have b5: "bucket w5 b = bucket w b" for b using dq(5) [of b] by (simp only: b2)
  have sk: "sorted ks" and dk: "distinct ks"
    unfolding ks by (rule sorted_distinct_all_keys)+
  \<comment> \<open>the loop, split at the interruption\<close>
  let ?pre = "take n ks" and ?suf = "drop n ks"
  let ?lp = "sync_loop state pf sf ?pre prior w5"
  define wI where "wI = snd ?lp"
  have split: "sync_loop state pf sf ks prior w5 =
      (case ?lp of (Inl e, w') \<Rightarrow> (Inl e, w')
       | (Inr c', w') \<Rightarrow> sync_loop state pf sf ?suf c' w')"
    using sync_loop_append [of state pf sf ?pre ?suf prior w5] by simp
  obtain cI where cI: "fst ?lp = Inr cI"
    using lo unfolding split by (cases "fst ?lp") (simp_all add: split_beta)
  have pre: "?lp = (Inr cI, wI)"
    using cI by (simp add: wI_def prod_eq_iff)
  have suf: "sync_loop state pf sf ?suf cI wI = (Inr cU, w6)"
    using lo unfolding split pre by simp
  have int: "interrupted n w = wI"
    unfolding wI_def by (rule interrupted_eq [OF ls lp di])
  let ?E1 = "filter (acts state pf sf prior) ?pre"
  have dpre: "distinct ?pre" and dsuf: "distinct ?suf" using dk by simp_all
  have cI_eq: "cI = prior \<union> set ?E1"
    using dpre cI by (rule sync_loop_completed)
  have qI: "faults wI = []"
    unfolding wI_def using q5 by (rule sync_loop_quiet)
  have dI: "distinct (map fst (bucket wI b))" for b
    unfolding wI_def by (rule sync_loop_distinct) (simp add: b5 d)
  have lpE: "?lp = sync_loop state pf sf ?E1 prior w5"
    using dpre by (rule sync_loop_filter)
  have untouched: "map_of (bucket wI b) k = map_of (bucket w b) k"
    if "k \<notin> set ?E1" "k \<noteq> LOG_KEY" for b k
    unfolding wI_def lpE using sync_loop_other [OF that, of state pf sf prior w5 b]
    by (simp only: b5)
  have E1_user: "k \<noteq> STATE_KEY \<and> k \<noteq> LOG_KEY" if "k \<in> set ?E1" for k
    using that listed_not_control [OF pfk sfk, where k = k and state = state] by (simp add: acts_def)
  have fin_prior: "finite prior"
    using lp load_progress_log_finite [of w1 prior] by simp
  have fin_cI: "finite cI" unfolding cI_eq using fin_prior by simp
  \<comment> \<open>the second run: the state and the log it loads\<close>
  have st_same: "map_of (bucket w b) STATE_KEY = map_of (bucket wI b) STATE_KEY" for b
  proof -
    have "STATE_KEY \<notin> set ?E1" using E1_user [of STATE_KEY] by blast
    from untouched [OF this, of b] show ?thesis by simp
  qed
  from load_state_cong [OF q qI st_same, of state] ls
  obtain state' where ls': "fst (load_state wI) = Inr (JObject state')" and fs: "files state' = files state"
    by auto
  define w1' where "w1' = snd (load_state wI)"
  have q1': "faults w1' = []" and b1': "\<And>b. bucket w1' b = bucket wI b"
    unfolding w1'_def using qI by (simp_all add: load_state_frame)
  have lse: "load_state wI = (Inr (JObject state'), w1')"
    using ls' by (simp add: w1'_def prod_eq_iff)
  have prior_eq: "fst (load_progress_log w1) = Inr prior" using lp by simp
  have log': "fst (load_progress_log w1') = Inr cI"
  proof (cases "cI = prior")
    case True
    with sync_loop_log [OF q5 cI] have "bucket wI b = bucket w5 b" for b
      by (simp add: wI_def)
    then have "body_at w1' = body_at w1"
      by (intro body_at_cong) (simp add: b1' b1 b5)
    then show ?thesis
      using prior_eq True
      by (simp add: load_progress_log_quiet [OF q1] load_progress_log_quiet [OF q1'])
  next
    case False
    with sync_loop_log [OF q5 cI]
    have "body_at wI PRIMARY_BUCKET LOG_KEY = Some (LogDoc (sorted_list_of_set cI))"
      by (simp add: wI_def)
    moreover have "body_at w1' = body_at wI"
      by (intro body_at_cong) (simp add: b1')
    ultimately show ?thesis
      using fin_cI by (simp add: load_progress_log_quiet [OF q1'] decode_log_def)
  qed
  define w2' where "w2' = snd (load_progress_log w1')"
  have q2': "faults w2' = []" and b2': "\<And>b. bucket w2' b = bucket wI b"
    unfolding w2'_def using q1' b1' by (simp_all add: load_progress_log_frame)
  have lpe: "load_progress_log w1' = (Inr cI, w2')"
    using log' by (simp add: w2'_def prod_eq_iff)
  obtain pf' sf' ks' w5' where di': "discover state' cI w2' = ((pf', sf', ks'), w5')"
    by (metis prod.exhaust)
  have d2': "\<And>b. distinct (map fst (bucket w2' b))" using dI by (simp add: b2')
  note dq' = discover_quiet [OF q2' d2' di']
  have pfk': "map_of pf' k = (if k \<in> {STATE_KEY, LOG_KEY} then None
                        else map_option LastModified (map_of (bucket wI PRIMARY_BUCKET) k))" for k
    using dq'(1) [of k] by (simp only: b2')
  have sfk': "map_of sf' k = (if k \<in> {STATE_KEY, LOG_KEY} then None
                        else map_option LastModified (map_of (bucket wI SECONDARY_BUCKET) k))" for k
    using dq'(2) [of k] by (simp only: b2')
  have ks': "ks' = all_keys state' pf' sf'" by (rule dq'(3))
  have q5': "faults w5' = []" by (rule dq'(4))
  have b5': "bucket w5' b = bucket wI b" for b using dq'(5) [of b] by (simp only: b2')
  have agree: "map_of pf' k = map_of pf k \<and> map_of sf' k = map_of sf k" if "k \<notin> set ?E1" for k
    using untouched [OF that] by (simp add: pfk sfk pfk' sfk')
  have choose: "choose_action state' pf' sf' k = choose_action state pf sf k" if "k \<notin> set ?E1" for k
    using agree [OF that] fs by (intro choose_action_cong) simp_all
  \<comment> \<open>the keys on which the second run acts are those left to the first\<close>
  let ?E2 = "filter (acts state pf sf cI) ?suf"
  have E_eq: "filter (acts state' pf' sf' cI) ks' = ?E2"
  proof (rule sorted_distinct_filter_eq)
    show "sorted ks'" "distinct ks'" unfolding ks' by (rule sorted_distinct_all_keys)+
    show "sorted ?suf" using sk by (rule sorted_wrt_drop)
    show "distinct ?suf" by (rule dsuf)
    fix k
    show "k \<in> set ks' \<and> acts state' pf' sf' cI k \<longleftrightarrow> k \<in> set ?suf \<and> acts state pf sf cI k"
    proof (cases "k \<in> cI")
      case True
      then show ?thesis by (simp add: acts_def)
    next
      case False
      then have nE: "k \<notin> set ?E1" and np: "k \<notin> prior" by (auto simp: cI_eq)
      note ch = choose [OF nE]
      show ?thesis
      proof (cases "choose_action state pf sf k = NO_ACTION")
        case True
        then show ?thesis using ch by (simp add: acts_def)
      next
        case na: False
        have in_ks: "k \<in> set ks"
          using choose_action_listed [OF na] by (auto simp: ks set_all_keys)
        have in_ks': "k \<in> set ks'"
          using choose_action_listed [of state' pf' sf' k] na ch
          by (auto simp: ks' set_all_keys)
        have "k \<notin> set ?pre"
          using nE np na by (auto simp: acts_def)
        moreover have "set ks = set ?pre \<union> set ?suf"
          using set_append [of ?pre ?suf] by simp
        ultimately have "k \<in> set ?suf" using in_ks by blast
        then show ?thesis
          using in_ks' False na ch by (simp add: acts_def)
      qed
    qed
  qed
  have E2_fresh: "k \<notin> set ?E1" if "k \<in> set ?E2" for k
    using that by (auto simp: acts_def cI_eq)
  \<comment> \<open>the two loops over those keys\<close>
  have sufE: "sync_loop state pf sf ?suf cI wI = sync_loop state pf sf ?E2 cI wI"
    using dsuf by (rule sync_loop_filter)
  have loop': "sync_loop state' pf' sf' ks' cI w5' = sync_loop state' pf' sf' ?E2 cI w5'"
    using sync_loop_filter [of ks' state' pf' sf' cI w5'] sorted_distinct_all_keys(2) [of state' pf' sf']
    by (simp add: ks' [symmetric] E_eq)
  have bI: "body_at wI = body_at w5'"
    by (intro body_at_cong) (simp add: b5')
  have sim: "fst (sync_loop state pf sf ?E2 cI wI) = fst (sync_loop state' pf' sf' ?E2 cI w5')
       \<and> body_at (snd (sync_loop state pf sf ?E2 cI wI)) =
         body_at (snd (sync_loop state' pf' sf' ?E2 cI w5'))"
    by (rule sync_loop_sim [OF qI q5' bI]) (simp add: choose [OF E2_fresh])
  define w6' where "w6' = snd (sync_loop state' pf' sf' ks' cI w5')"
  have lo': "sync_loop state' pf' sf' ks' cI w5' = (Inr cU, w6')"
    using sim suf by (simp add: w6'_def loop' sufE prod_eq_iff)
  have b6: "body_at w6 = body_at w6'"
    using sim suf by (simp add: w6'_def loop' sufE)
  have q6: "faults w6 = []"
    using sync_loop_quiet [OF qI, of state pf sf ?suf cI] suf by simp
  have q6': "faults w6' = []"
    unfolding w6'_def using q5' by (rule sync_loop_quiet)
  have run': "replicate_resilient wI = (Inr (Inr ()), finish state' w6')"
    by (rule replicate_resilient_intro [OF lse lpe di' lo'])
  \<comment> \<open>the requests of the two runs\<close>
  let ?P1 = "\<lambda>c. \<forall>k. action_key c = Some k \<longrightarrow> k \<in> set ?E1"
  let ?P2 = "\<lambda>c. \<forall>k. action_key c = Some k \<longrightarrow> k \<in> set ?E2"
  have c1: "calls_extend ?P1 w w1"
    unfolding w1 by (rule load_state_extend) simp
  have c2: "calls_extend ?P1 w1 w2"
    unfolding w2 by (rule load_progress_log_extend) simp
  have c5: "calls_extend ?P1 w2 w5"
    using discover_extend [of ?P1 w2 state prior] di by simp
  have cI_calls: "calls_extend ?P1 w5 wI"
    unfolding wI_def
  proof (rule sync_loop_extend)
    fix k c
    assume k: "k \<in> set ?pre" "k \<notin> prior" and r: "request (choose_action state pf sf k) k = Some c"
    have "k \<in> set ?E1" using k request_acts [OF r k(2)] by simp
    then show "?P1 c" using action_key_request [OF r] by auto
  next
    fix b doc show "?P1 (PutObject b LOG_KEY doc)" by simp
  qed
  have first: "calls_extend ?P1 w wI"
    by (rule calls_extend_trans [OF calls_extend_trans [OF calls_extend_trans [OF c1 c2] c5] cI_calls])
  have c1': "calls_extend ?P2 wI w1'"
    unfolding w1'_def by (rule load_state_extend) simp
  have c2': "calls_extend ?P2 w1' w2'"
    unfolding w2'_def by (rule load_progress_log_extend) simp
  have c5': "calls_extend ?P2 w2' w5'"
    using discover_extend [of ?P2 w2' state' cI] di' by simp
  have c6': "calls_extend ?P2 w5' w6'"
    unfolding w6'_def
  proof (rule sync_loop_extend)
    fix k c
    assume k: "k \<in> set ks'" "k \<notin> cI" and r: "request (choose_action state' pf' sf' k) k = Some c"
    have "k \<in> set (filter (acts state' pf' sf' cI) ks')"
      using k request_acts [OF r k(2)] by simp
    then have "k \<in> set ?E2" by (simp only: E_eq)
    then show "?P2 c" using action_key_request [OF r] by auto
  next
    fix b doc show "?P2 (PutObject b LOG_KEY doc)" by simp
  qed
  from finish_calls [of ?P2 state' w6'] obtain cs r1 r2 where
    fc: "calls (finish state' w6') =
           calls w6' @ cs @ [(DeleteObject PRIMARY_BUCKET LOG_KEY, r1),
                            (DeleteObject SECONDARY_BUCKET LOG_KEY, r2)]"
    and fp: "list_all (\<lambda>c. ?P2 (fst c)) cs"
    by auto
  have c7': "calls_extend ?P2 w6' (finish state' w6')"
    unfolding calls_extend_def using fc fp
    by (intro exI [of _ "cs @ [(DeleteObject PRIMARY_BUCKET LOG_KEY, r1),
                              (DeleteObject SECONDARY_BUCKET LOG_KEY, r2)]"]) simp
  have second: "calls_extend ?P2 wI (finish state' w6')"
    by (rule calls_extend_trans [OF calls_extend_trans [OF calls_extend_trans
          [OF calls_extend_trans [OF c1' c2'] c5'] c6'] c7'])
  have disj: "set ?E1 \<inter> set ?E2 = {}"
    using E2_fresh by blast
  \<comment> \<open>the time stamps the two runs leave\<close>
  have d6: "distinct (map fst (bucket w6 b))" for b
    using sync_loop_distinct [of wI b state pf sf ?suf cI] dI suf by simp
  have d5': "distinct (map fst (bucket w5' b))" for b
    by (simp add: b5' dI)
  have d6': "distinct (map fst (bucket w6' b))" for b
    unfolding w6'_def by (rule sync_loop_distinct) (rule d5')
  have t1: "clock w1 = clock w \<and> tick w \<le> tick w1"
    unfolding w1 by (rule load_state_time)
  have t2: "clock w2 = clock w \<and> tick w \<le> tick w2"
    unfolding w2 using load_progress_log_time [of w1] t1 by simp
  have t5: "clock w5 = clock w \<and> tick w \<le> tick w5"
    using discover_time [of state prior w2] di t2 by simp
  have tI: "clock wI = clock w \<and> tick w \<le> tick wI"
    unfolding wI_def using sync_loop_time [of state pf sf ?pre prior w5] t5 by simp
  have t1': "clock w1' = clock w \<and> tick w \<le> tick w1'"
    unfolding w1'_def using load_state_time [of wI] tI by simp
  have t2': "clock w2' = clock w \<and> tick w \<le> tick w2'"
    unfolding w2'_def using load_progress_log_time [of w1'] t1' by simp
  have t5': "clock w5' = clock w \<and> tick w \<le> tick w5'"
    using discover_time [of state' cI w2'] di' t2' by simp
  have e6: "w6 = snd (sync_loop state pf sf ?E2 cI wI)"
    using suf by (simp add: sufE)
  have e6': "w6' = snd (sync_loop state' pf' sf' ?E2 cI w5')"
    by (simp add: w6'_def loop')
  have okU: "fst (sync_loop state pf sf ?E2 cI wI) = Inr cU"
    using suf by (simp add: sufE)
  have okR: "fst (sync_loop state' pf' sf' ?E2 cI w5') = Inr cU"
    using lo' by (simp add: loop')
  have dE2: "distinct ?E2" using dsuf by simp
  have actsU: "acts state pf sf cI x" if "x \<in> set ?E2" for x
    using that by simp
  have actsR: "acts state' pf' sf' cI x" if "x \<in> set ?E2" for x
  proof -
    from that have "x \<in> set (filter (acts state' pf' sf' cI) ks')" by (simp only: E_eq)
    then show ?thesis by simp
  qed
  have src: "source_at w6 k = source_at w6' k"
    if H: "clock_ahead w" and k: "k \<noteq> STATE_KEY" "k \<noteq> LOG_KEY" for k
  proof (cases "k \<in> set ?E2")
    case True
    have orig: "map_of (bucket wI b) k = map_of (bucket w b) k" for b
      using E2_fresh [OF True] k(2) by (rule untouched)
    have eU: "acted_on (choose_action state pf sf k) (\<lambda>b. map_of (bucket w b) k)
                (\<lambda>b. map_of (bucket w6 b) k) (clock w) (tick w)"
      using sync_loop_effect [OF qI dE2 actsU okU True k(2)] tI
      by (auto simp: orig e6 [symmetric] intro: acted_on_mono)
    have eR: "acted_on (choose_action state pf sf k) (\<lambda>b. map_of (bucket w b) k)
                (\<lambda>b. map_of (bucket w6' b) k) (clock w) (tick w)"
      using sync_loop_effect [OF q5' dE2 actsR okR True k(2)] t5'
      by (auto simp: orig b5' e6' [symmetric] choose [OF E2_fresh [OF True]]
          intro: acted_on_mono)
    have old: "LastModified obj < clock w n"
      if "map_of (bucket w b) k = Some obj" "tick w \<le> n" for b obj n
      using H that unfolding clock_ahead_def by blast
    from source_after_action [OF eU eR old]
    show ?thesis
      by (simp add: source_at_def stamp_at_def)
  next
    case False
    have "map_of (bucket w6 b) k = map_of (bucket wI b) k" for b
      unfolding e6 using False k(2) by (rule sync_loop_other)
    moreover have "map_of (bucket w6' b) k = map_of (bucket wI b) k" for b
      unfolding e6' using sync_loop_other [OF False k(2), of state' pf' sf' cI w5' b]
      by (simp add: b5')
    ultimately show ?thesis
      by (simp add: source_at_def stamp_at_def)
  qed
  show ?thesis
    unfolding int using run' q6 q6' b6 d6 d6' src disj first second by blast
qed

text \<open>
  C3, as the claim states it, fails, and not only in the times a state records. In the
  first sample world \<open>b\<close> carries a modification time that the clock reaches only
  later. The uninterrupted run copies \<open>b\<close> at a time before it, and its state gives
  \<open>b\<close> the source \<open>primary\<close>; the run that is interrupted after the turn for \<open>a\<close> and
  run again copies \<open>b\<close> later, at that very time, and its state gives \<open>b\<close> the source
  \<open>equal\<close>. In the second sample world a request fails that only the second run is
  there to make, its last listing of the secondary bucket: the uninterrupted run records
  both keys as seen in both buckets, the resumed run as seen in the primary bucket only.
\<close>

theorem C3_counterexample:
  "map_option source_map
     (stored_state (snd (replicate_resilient ex_world_late)) PRIMARY_BUCKET) =
     Some [(''a'', ''secondary''), (''b'', ''primary'')]
   \<and> map_option source_map
       (stored_state (snd (replicate_resilient (interrupted 1 ex_world_late))) PRIMARY_BUCKET) =
       Some [(''a'', ''secondary''), (''b'', ''equal'')]
   \<and> fst (replicate_resilient ex_world_late) = Inr (Inr ())
   \<and> fst (replicate_resilient (interrupted 1 ex_world_late)) = Inr (Inr ())
   \<and> map_option seen_map
       (stored_state (snd (replicate_resilient ex_world_late_fault)) PRIMARY_BUCKET) =
       Some [(''a'', [''primary'', ''secondary'']), (''b'', [''primary'', ''secondary''])]
   \<and> map_option seen_map
       (stored_state (snd (replicate_resilient (interrupted 1 ex_world_late_fault)))
          PRIMARY_BUCKET) =
       Some [(''a'', [''primary'']), (''b'', [''primary''])]
   \<and> fst (replicate_resilient ex_world_late_fault) = Inr (Inr ())
   \<and> fst (replicate_resilient (interrupted 1 ex_world_late_fault)) = Inr (Inr ())"
  by code_simp

text \<open>
  C3, amended. Let no request fail, let the keys of each bucket be distinct (as the
  keys of a bucket are), and let the uninterrupted run end normally. Kill the run after any number \<open>n\<close> of turns of its
  loop (so, in particular, right after the turn that checkpointed a key) and run it
  again. The second run ends normally too. Afterwards every key other than the state key
  holds the same body in each bucket as after the uninterrupted run (the log is gone in
  both); both buckets hold one state, which records the same keys, in the same order,
  with the same \<open>last_seen_in\<close> as the state of the uninterrupted run, and also with the
  same \<open>source\<close> when every time stamp stored at the start is earlier than the times
  the clock gives afterwards; and no key that a copy or a delete was requested for
  before the interruption is copied or deleted by the second run. The times
  \<open>last_synced\<close> and \<open>last_updated\<close> are those each run read from the clock, as they
  are for any two runs, and are not compared.
\<close>

theorem C3_resumed_run:
  assumes "faults w = []"
    and "distinct (map fst (primary w))" and "distinct (map fst (secondary w))"
    and "fst (replicate_resilient w) = Inr (Inr ())"
  shows "fst (replicate_resilient (interrupted n w)) = Inr (Inr ())
     \<and> (\<forall>b k. k \<noteq> STATE_KEY \<longrightarrow>
           body_at (snd (replicate_resilient (interrupted n w))) b k =
           body_at (snd (replicate_resilient w)) b k)
     \<and> (\<exists>sU sR.
           (\<forall>b. body_at (snd (replicate_resilient w)) b STATE_KEY = Some (StateDoc sU)
              \<and> body_at (snd (replicate_resilient (interrupted n w))) b STATE_KEY =
                  Some (StateDoc sR))
         \<and> seen_map sR = seen_map sU
         \<and> (clock_ahead w \<longrightarrow> source_map sR = source_map sU))
     \<and> (\<forall>x \<in> set (new_calls w (interrupted n w)).
         \<forall>y \<in> set (new_calls (interrupted n w) (snd (replicate_resilient (interrupted n w)))).
         \<forall>k. action_key (fst x) = Some k \<longrightarrow> action_key (fst y) \<noteq> Some k)"
proof -
  have d: "distinct (map fst (bucket w b))" for b
    using assms(2,3) by (cases b) (simp_all add: bucket_simps)
  from replicate_resilient_Inr [OF assms(4)]
  obtain state w1 prior w2 pf sf ks w5 c w6 where
    run: "load_state w = (Inr (JObject state), w1)" "load_progress_log w1 = (Inr prior, w2)"
      "discover state prior w2 = ((pf, sf, ks), w5)"
      "sync_loop state pf sf ks prior w5 = (Inr c, w6)"
    and fin: "snd (replicate_resilient w) = finish state w6"
    by blast
  from resume_core [OF assms(1) d run, of n]
  obtain state' w6' A B where
    run': "replicate_resilient (interrupted n w) = (Inr (Inr ()), finish state' w6')"
    and q: "faults w6 = []" "faults w6' = []" and b: "body_at w6 = body_at w6'"
    and dd: "\<forall>b. distinct (map fst (bucket w6 b))" "\<forall>b. distinct (map fst (bucket w6' b))"
    and src: "clock_ahead w \<longrightarrow>
               (\<forall>k. k \<noteq> STATE_KEY \<and> k \<noteq> LOG_KEY \<longrightarrow> source_at w6 k = source_at w6' k)"
    and disj: "A \<inter> B = {}"
    and first: "calls_extend (\<lambda>c. \<forall>k. action_key c = Some k \<longrightarrow> k \<in> A) w (interrupted n w)"
    and second: "calls_extend (\<lambda>c. \<forall>k. action_key c = Some k \<longrightarrow> k \<in> B) (interrupted n w)
                   (finish state' w6')"
    by blast
  from finish_sim [OF q b, of state state'] obtain sa sb where
    bodies: "\<forall>b k. k \<noteq> STATE_KEY \<longrightarrow>
               body_at (finish state w6) b k = body_at (finish state' w6') b k"
    and docs: "\<forall>b. body_at (finish state w6) b STATE_KEY = Some (StateDoc sa)
                 \<and> body_at (finish state' w6') b STATE_KEY = Some (StateDoc sb)"
    and seen: "seen_map sa = seen_map sb"
    and sources: "(\<forall>b. distinct (map fst (bucket w6 b))) \<and> (\<forall>b. distinct (map fst (bucket w6' b)))
                \<and> (\<forall>k. k \<noteq> STATE_KEY \<and> k \<noteq> LOG_KEY \<longrightarrow> source_at w6 k = source_at w6' k)
                \<longrightarrow> source_map sa = source_map sb"
    by blast
  have 1: "fst (replicate_resilient (interrupted n w)) = Inr (Inr ())"
    by (simp add: run')
  have 2: "\<forall>b k. k \<noteq> STATE_KEY \<longrightarrow>
           body_at (snd (replicate_resilient (interrupted n w))) b k =
           body_at (snd (replicate_resilient w)) b k"
    using bodies by (simp add: run' fin)
  have 3: "\<exists>sU sR.
           (\<forall>b. body_at (snd (replicate_resilient w)) b STATE_KEY = Some (StateDoc sU)
              \<and> body_at (snd (replicate_resilient (interrupted n w))) b STATE_KEY =
                  Some (StateDoc sR))
         \<and> seen_map sR = seen_map sU
         \<and> (clock_ahead w \<longrightarrow> source_map sR = source_map sU)"
  proof (rule exI [of _ sa], rule exI [of _ sb], intro conjI)
    show "\<forall>b. body_at (snd (replicate_resilient w)) b STATE_KEY = Some (StateDoc sa)
              \<and> body_at (snd (replicate_resilient (interrupted n w))) b STATE_KEY =
                  Some (StateDoc sb)"
      using docs by (simp add: run' fin)
    show "seen_map sb = seen_map sa" using seen by simp
    show "clock_ahead w \<longrightarrow> source_map sb = source_map sa"
      using sources src dd by simp
  qed
  have 4: "\<forall>x \<in> set (new_calls w (interrupted n w)).
         \<forall>y \<in> set (new_calls (interrupted n w) (snd (replicate_resilient (interrupted n w)))).
         \<forall>k. action_key (fst x) = Some k \<longrightarrow> action_key (fst y) \<noteq> Some k"
  proof (intro ballI allI impI)
    fix x y k
    assume x: "x \<in> set (new_calls w (interrupted n w))"
      and y: "y \<in> set (new_calls (interrupted n w) (snd (replicate_resilient (interrupted n w))))"
      and k: "action_key (fst x) = Some k"
    from calls_extend_new_calls [OF first] x k have "k \<in> A"
      by (auto simp: list_all_iff)
    with disj have "k \<notin> B" by blast
    moreover from calls_extend_new_calls [OF second] y
    have "action_key (fst y) = Some k \<longrightarrow> k \<in> B"
      by (auto simp: list_all_iff run')
    ultimately show "action_key (fst y) \<noteq> Some k" by blast
  qed
  from 1 2 3 4 show ?thesis by blast
qed

lemma ex_world_two_clock_ahead: "clock_ahead ex_world_two"
proof -
  have "LastModified obj < clock ex_world_two n"
    if "map_of (bucket ex_world_two b) k = Some obj" for b k obj n
    using that
    by (cases b) (auto simp: ex_world_two_def ex_world_def bucket_def split: if_splits)
  then show ?thesis
    unfolding clock_ahead_def by blast
qed

theorem C3_resumed_run_witness:
  "faults ex_world_two = []
   \<and> distinct (map fst (primary ex_world_two)) \<and> distinct (map fst (secondary ex_world_two))
   \<and> fst (replicate_resilient ex_world_two) = Inr (Inr ())
   \<and> clock_ahead ex_world_two
   \<and> map fst (filter (\<lambda>x. action_key (fst x) \<noteq> None)
                  (new_calls ex_world_two (interrupted 1 ex_world_two))) =
       [CopyObject PRIMARY_BUCKET ''a'' SECONDARY_BUCKET ''a'']
   \<and> map fst (filter (\<lambda>x. action_key (fst x) \<noteq> None)
                  (new_calls (interrupted 1 ex_world_two)
                     (snd (replicate_resilient (interrupted 1 ex_world_two))))) =
       [CopyObject PRIMARY_BUCKET ''b'' SECONDARY_BUCKET ''b'']
   \<and> fst (replicate_resilient (interrupted 1 ex_world_two)) = Inr (Inr ())
   \<and> body_at (snd (replicate_resilient (interrupted 1 ex_world_two))) SECONDARY_BUCKET ''b'' =
       body_at (snd (replicate_resilient ex_world_two)) SECONDARY_BUCKET ''b''
   \<and> body_at (snd (replicate_resilient ex_world_two)) SECONDARY_BUCKET ''b'' = Some (Blob ''y'')
   \<and> (\<exists>sU sR.
         body_at (snd (replicate_resilient ex_world_two)) PRIMARY_BUCKET STATE_KEY =
           Some (StateDoc sU)
       \<and> body_at (snd (replicate_resilient (interrupted 1 ex_world_two))) PRIMARY_BUCKET STATE_KEY =
           Some (StateDoc sR)
       \<and> seen_map sR = seen_map sU \<and> source_map sR = source_map sU)"
proof -
  have h: "faults ex_world_two = []" "distinct (map fst (primary ex_world_two))"
    "distinct (map fst (secondary ex_world_two))"
    "fst (replicate_resilient ex_world_two) = Inr (Inr ())"
    by code_simp+
  have v: "body_at (snd (replicate_resilient ex_world_two)) SECONDARY_BUCKET ''b'' = Some (Blob ''y'')"
    by code_simp
  have a1: "map fst (filter (\<lambda>x. action_key (fst x) \<noteq> None)
                  (new_calls ex_world_two (interrupted 1 ex_world_two))) =
       [CopyObject PRIMARY_BUCKET ''a'' SECONDARY_BUCKET ''a'']"
    by code_simp
  have a2: "map fst (filter (\<lambda>x. action_key (fst x) \<noteq> None)
                  (new_calls (interrupted 1 ex_world_two)
                     (snd (replicate_resilient (interrupted 1 ex_world_two))))) =
       [CopyObject PRIMARY_BUCKET ''b'' SECONDARY_BUCKET ''b'']"
    by code_simp
  have b: "''b'' \<noteq> STATE_KEY" by (simp add: STATE_KEY_def)
  note c = ex_world_two_clock_ahead
  note t = C3_resumed_run [OF h, of 1]
  from t b
  have r: "fst (replicate_resilient (interrupted 1 ex_world_two)) = Inr (Inr ())
     \<and> body_at (snd (replicate_resilient (interrupted 1 ex_world_two))) SECONDARY_BUCKET ''b'' =
       body_at (snd (replicate_resilient ex_world_two)) SECONDARY_BUCKET ''b''"
    by blast
  from t c
  have s: "\<exists>sU sR.
         body_at (snd (replicate_resilient ex_world_two)) PRIMARY_BUCKET STATE_KEY =
           Some (StateDoc sU)
       \<and> body_at (snd (replicate_resilient (interrupted 1 ex_world_two))) PRIMARY_BUCKET STATE_KEY =
           Some (StateDoc sR)
       \<and> seen_map sR = seen_map sU \<and> source_map sR = source_map sU"
    by blast
  from h c a1 a2 r v s show ?thesis by blast
qed

subsection \<open>Failures that the script passes over\<close>

text \<open>
  C1. \<open>list_bucket_objects\<close> does not pass a failed listing on: when the request fails
  it prints the error and returns the empty listing. In a run over two buckets that
  both hold \<open>a\<close>, recorded as seen in both, a failed listing of the secondary bucket
  makes the run delete \<open>a\<close> from the primary bucket and end normally.
\<close>

theorem C1_listing_failure_swallowed:
  "fst (list_bucket_objects PRIMARY_BUCKET (ex_world\<lparr>faults := [Some ''AccessDenied'']\<rparr>)) = []
   \<and> printed (snd (list_bucket_objects PRIMARY_BUCKET (ex_world\<lparr>faults := [Some ''AccessDenied'']\<rparr>)))
       = [CriticalCouldNotList PRIMARY_BUCKET ''AccessDenied'']
   \<and> fst (replicate_resilient ex_world_both) = Inr (Inr ())
   \<and> map_of (primary (snd (replicate_resilient ex_world_both))) ''a'' = None
   \<and> (DeleteObject PRIMARY_BUCKET ''a'', None) \<in> set (calls (snd (replicate_resilient ex_world_both)))"
  by code_simp

text \<open>
  C4. When the copy of \<open>a\<close> fails, \<open>replicate_resilient\<close> returns through its handler,
  and the script goes on to print its closing line and ends with exit status 0.
\<close>

theorem C4_failed_run_exits_zero:
  "fst (replicate_resilient (ex_world\<lparr>faults := [None, None, None, None, None, Some ''InternalError'']\<rparr>))
     = Inr (Inl ''InternalError'')
   \<and> fst (main (ex_world\<lparr>faults := [None, None, None, None, None, Some ''InternalError'']\<rparr>)) = 0
   \<and> printed (snd (main (ex_world\<lparr>faults := [None, None, None, None, None, Some ''InternalError'']\<rparr>)))
       = [Starting ''t2'', NoStateFileFound, Discovering, FoundTotal 1, NewInPrimary ''a'',
          ErrorProcessing ''a'' ''InternalError'', FinishedSuccessfully ''t2'']"
  by code_simp

end
